theory Spec2Isabelle
  imports Main "HOL-Library.Word"
begin

unbundle bit_operations_syntax

section \<open>Configuration and signal widths\<close>

text \<open>
  The embedding follows \<open>gateware/bundle_multiplexer.py\<close>.  The class constants are
  \<open>NO_CHANNELS_ADAT = 8\<close> and \<open>SAMPLE_WIDTH = 24\<close>; the number of bundles
  \<open>no_bundles\<close> is the constructor argument and stays a parameter \<open>N\<close> of every
  definition below.  A sample is a \<open>24 word\<close>, a channel number inside a bundle a
  \<open>3 word\<close> (\<open>_bundle_channel_bits\<close>), a FIFO entry a \<open>28 word\<close>
  (\<open>sample_width + bundle_bits + 1\<close>).  The two signals whose width depends on \<open>N\<close>
  (\<open>current_bundle\<close> and \<open>first_bundle_channel\<close>) are naturals, with the truncation
  of every assignment written out.
\<close>

definition NO_CHANNELS_ADAT :: nat where
  "NO_CHANNELS_ADAT = 8"

type_synonym sample = "24 word"
type_synonym bundle_channel_nr = "3 word"
type_synonym fifo_word = "28 word"

text \<open>Python's \<open>int.bit_length\<close> on a natural number.\<close>

fun bit_length :: "nat \<Rightarrow> nat" where
  "bit_length n = (if n = 0 then 0 else Suc (bit_length (n div 2)))"

declare bit_length.simps [simp del]

text \<open>
  Modelled from the spec: the widths are "the bits needed" for the number of values; the
  function that computes them belongs to the HDL library and is not part of the
  repository's source.  \<open>bits_for n\<close> is the bit length of \<open>n\<close>, and \<open>1\<close> for
  \<open>n = 0\<close>; \<open>range_width k\<close> is the width of \<open>Shape.cast(range(k))\<close>, the larger of
  the widths of \<open>0\<close> and of \<open>k - 1\<close>.  The proofs use of it only that \<open>k\<close> values fit.
\<close>

definition bits_for :: "nat \<Rightarrow> nat" where
  "bits_for n = (if 0 < n then bit_length n else 1)"

definition range_width :: "nat \<Rightarrow> nat" where
  "range_width k = (if k = 0 then 0 else max (bits_for 0) (bits_for (k - 1)))"

text \<open>\<open>self._channel_bits\<close>, the width of \<open>first_bundle_channel\<close> and of the output \<open>channel_nr\<close>.\<close>

definition channel_bits :: "nat \<Rightarrow> nat" where
  "channel_bits N = range_width (N * NO_CHANNELS_ADAT)"

text \<open>The width of \<open>current_bundle = Signal(range(self._no_bundles))\<close>.\<close>

definition current_bundle_bits :: "nat \<Rightarrow> nat" where
  "current_bundle_bits N = range_width N"

section \<open>Input streams and the FIFO entry\<close>

text \<open>
  What a bundle's source drives on \<open>bundles_in[i]\<close> in one clock cycle: the fields of
  the \<open>StreamInterface\<close> with the extra field \<open>channel_nr\<close>.
\<close>

record stream_in =
  in_valid :: bool
  in_payload :: sample
  in_channel_nr :: bundle_channel_nr
  in_first :: bool
  in_last :: bool

text \<open>
  \<open>fifo.w_data\<close> as the three assignments of lines 46 to 48 build it, a later assignment
  overriding an earlier one on the bits it names: first the payload, zero extended; then
  the slice \<open>[sample_width:]\<close>, four bits wide, takes the zero-extended channel number;
  then bit \<open>-1\<close>, which is bit 27, takes \<open>last\<close>.  The first of the three is made by
  the library's \<open>connect_stream_to_fifo\<close>, called here without a bit position for
  \<open>first\<close> or \<open>last\<close>: it connects \<open>valid\<close> to \<open>w_en\<close>, \<open>w_rdy\<close> to
  \<open>ready\<close> and the payload to \<open>w_data\<close>.  The entry has no bit for the input's
  \<open>first\<close>, which is wired to nothing.
\<close>

definition w_data :: "stream_in \<Rightarrow> fifo_word" where
  "w_data b =
     (let w0 = (ucast (in_payload b) :: fifo_word);
          w1 = take_bit 24 w0 OR push_bit 24 (ucast (in_channel_nr b));
          w2 = (if in_last b then set_bit 27 w1 else unset_bit 27 w1)
      in w2)"

section \<open>The receive FIFOs\<close>

text \<open>
  Modelled from the spec: the elastic input buffer is the HDL library's \<open>SyncFIFO\<close>
  (first-word-fall-through, \<open>depth = NO_CHANNELS_ADAT\<close>), which is not part of the
  repository's source.  Its contents are the list of entries, oldest first.  It accepts a
  write when not full, shows its oldest entry on \<open>r_data\<close> when not empty, and removes
  it on a clock edge where \<open>r_en\<close> and \<open>r_rdy\<close> both hold.
\<close>

type_synonym fifo = "fifo_word list"

definition w_rdy :: "nat \<Rightarrow> fifo \<Rightarrow> bool" where
  "w_rdy depth q = (length q \<noteq> depth)"

definition r_rdy :: "fifo \<Rightarrow> bool" where
  "r_rdy q = (q \<noteq> [])"

text \<open>On an empty FIFO \<open>r_data\<close> is not meaningful; the multiplexer reads it under \<open>r_rdy\<close> only.\<close>

definition r_data :: "fifo \<Rightarrow> fifo_word" where
  "r_data q = (case q of [] \<Rightarrow> 0 | x # _ \<Rightarrow> x)"

definition fifo_step :: "nat \<Rightarrow> fifo \<Rightarrow> bool \<Rightarrow> fifo_word \<Rightarrow> bool \<Rightarrow> fifo" where
  "fifo_step depth q w_en w r_en =
     (let q1 = (if r_en \<and> r_rdy q then tl q else q)
      in if w_en \<and> w_rdy depth q then q1 @ [w] else q1)"

text \<open>
  The three slices the multiplexer takes of a FIFO entry: \<open>[:sample_width]\<close>,
  \<open>[sample_width:sample_width + bundle_bits]\<close> and \<open>[-1]\<close>.
\<close>

definition entry_sample :: "fifo_word \<Rightarrow> sample" where
  "entry_sample w = ucast w"

definition entry_channel :: "fifo_word \<Rightarrow> bundle_channel_nr" where
  "entry_channel w = ucast (drop_bit 24 w)"

definition entry_last :: "fifo_word \<Rightarrow> bool" where
  "entry_last w = bit w 27"

text \<open>The combinational views of lines 50 to 54.\<close>

definition bundle_ready :: "fifo \<Rightarrow> bool" where
  "bundle_ready q = r_rdy q"

definition bundle_sample :: "fifo \<Rightarrow> sample" where
  "bundle_sample q = entry_sample (r_data q)"

definition bundle_channel :: "fifo \<Rightarrow> bundle_channel_nr" where
  "bundle_channel q = entry_channel (r_data q)"

definition bundle_last :: "fifo \<Rightarrow> bool" where
  "bundle_last q = entry_last (r_data q)"

section \<open>The multiplexer\<close>

record mux_state =
  fifos :: "fifo list"
  current_bundle :: nat
  first_bundle_channel :: nat

record tick_in =
  bundles_in :: "nat \<Rightarrow> stream_in"
  out_ready :: bool

record stream_out =
  out_valid :: bool
  out_payload :: sample
  out_channel_nr :: nat
  out_first :: bool
  out_last :: bool

text \<open>
  Indexing an \<open>Array\<close> of the HDL library by a signal: an index past the end selects the
  last element.  In every state reached from power-on the index is in range.
\<close>

definition array_index :: "nat \<Rightarrow> nat \<Rightarrow> nat" where
  "array_index n i = (if i < n then i else n - 1)"

definition selected :: "mux_state \<Rightarrow> fifo" where
  "selected s = fifos s ! array_index (length (fifos s)) (current_bundle s)"

text \<open>The condition of the \<open>m.If\<close> of line 61.\<close>

definition emitting :: "mux_state \<Rightarrow> tick_in \<Rightarrow> bool" where
  "emitting s i = (bundle_ready (selected s) \<and> out_ready i)"

text \<open>
  The output stream of one cycle (lines 62 to 73).  A combinational signal that no active
  branch assigns has its reset value, 0.
\<close>

definition channel_stream_out :: "nat \<Rightarrow> mux_state \<Rightarrow> tick_in \<Rightarrow> stream_out" where
  "channel_stream_out N s i =
     (if emitting s i then
        \<lparr> out_valid = True,
          out_payload = bundle_sample (selected s),
          out_channel_nr =
            (first_bundle_channel s + unat (bundle_channel (selected s))) mod 2 ^ channel_bits N,
          out_first = (current_bundle s = 0 \<and> bundle_channel (selected s) = 0),
          out_last = (bundle_last (selected s) \<and> current_bundle s = N - 1) \<rparr>
      else
        \<lparr> out_valid = False, out_payload = 0, out_channel_nr = 0,
          out_first = False, out_last = False \<rparr>)"

definition read_enable :: "mux_state \<Rightarrow> tick_in \<Rightarrow> nat \<Rightarrow> bool" where
  "read_enable s i k =
     (emitting s i \<and> k = array_index (length (fifos s)) (current_bundle s))"

text \<open>The registers after the clock edge (lines 74 to 82), each assignment truncated to its signal.\<close>

definition next_current_bundle :: "nat \<Rightarrow> mux_state \<Rightarrow> tick_in \<Rightarrow> nat" where
  "next_current_bundle N s i =
     (if emitting s i \<and> bundle_last (selected s) then
        (if current_bundle s = N - 1 then 0
         else (current_bundle s + 1) mod 2 ^ current_bundle_bits N)
      else current_bundle s)"

definition next_first_bundle_channel :: "nat \<Rightarrow> mux_state \<Rightarrow> tick_in \<Rightarrow> nat" where
  "next_first_bundle_channel N s i =
     (if emitting s i \<and> bundle_last (selected s) then
        (if current_bundle s = N - 1 then 0
         else (first_bundle_channel s + NO_CHANNELS_ADAT) mod 2 ^ channel_bits N)
      else first_bundle_channel s)"

definition tick :: "nat \<Rightarrow> mux_state \<Rightarrow> tick_in \<Rightarrow> mux_state" where
  "tick N s i =
     \<lparr> fifos = map (\<lambda>k. fifo_step NO_CHANNELS_ADAT (fifos s ! k)
                        (in_valid (bundles_in i k)) (w_data (bundles_in i k))
                        (read_enable s i k)) [0..<length (fifos s)],
       current_bundle = next_current_bundle N s i,
       first_bundle_channel = next_first_bundle_channel N s i \<rparr>"

text \<open>The state after reset: every FIFO empty, both registers 0.\<close>

definition power_on :: "nat \<Rightarrow> mux_state" where
  "power_on N = \<lparr> fifos = replicate N [], current_bundle = 0, first_bundle_channel = 0 \<rparr>"

fun run :: "nat \<Rightarrow> mux_state \<Rightarrow> tick_in list \<Rightarrow> mux_state" where
  "run N s [] = s"
| "run N s (i # is) = run N (tick N s i) is"

fun outputs :: "nat \<Rightarrow> mux_state \<Rightarrow> tick_in list \<Rightarrow> stream_out list" where
  "outputs N s [] = []"
| "outputs N s (i # is) = channel_stream_out N s i # outputs N (tick N s i) is"

section \<open>Traces\<close>

text \<open>
  A transfer is one cycle in which the output handshake completes: the index of the FIFO
  that is read, the entry read from it, and the event on the output stream.
\<close>

record transfer =
  from_bundle :: nat
  entry :: fifo_word
  event :: stream_out

definition transfer_of :: "nat \<Rightarrow> mux_state \<Rightarrow> tick_in \<Rightarrow> transfer list" where
  "transfer_of N s i =
     (if emitting s i then
        [\<lparr> from_bundle = array_index (length (fifos s)) (current_bundle s),
           entry = r_data (selected s),
           event = channel_stream_out N s i \<rparr>]
      else [])"

fun transfers :: "nat \<Rightarrow> mux_state \<Rightarrow> tick_in list \<Rightarrow> transfer list" where
  "transfers N s [] = []"
| "transfers N s (i # is) = transfer_of N s i @ transfers N (tick N s i) is"

text \<open>
  The output event of a transfer as a function of the bundle and of the entry read; in
  every state that satisfies the invariant below the multiplexer emits this event.
\<close>

definition event_of :: "nat \<Rightarrow> nat \<Rightarrow> fifo_word \<Rightarrow> stream_out" where
  "event_of N b w =
     \<lparr> out_valid = True, out_payload = entry_sample w,
       out_channel_nr = b * NO_CHANNELS_ADAT + unat (entry_channel w),
       out_first = (b = 0 \<and> entry_channel w = 0),
       out_last = (entry_last w \<and> b = N - 1) \<rparr>"

text \<open>The events a bundle's FIFO accepts from its source: \<open>valid\<close> and \<open>ready\<close> both hold.\<close>

definition accepted_of :: "mux_state \<Rightarrow> tick_in \<Rightarrow> nat \<Rightarrow> stream_in list" where
  "accepted_of s i k =
     (if in_valid (bundles_in i k) \<and> w_rdy NO_CHANNELS_ADAT (fifos s ! k)
      then [bundles_in i k] else [])"

fun accepted :: "nat \<Rightarrow> mux_state \<Rightarrow> tick_in list \<Rightarrow> nat \<Rightarrow> stream_in list" where
  "accepted N s [] k = []"
| "accepted N s (i # is) k = accepted_of s i k @ accepted N (tick N s i) is k"

text \<open>The number of bundle frames a list of transfers completes.\<close>

definition frames_done :: "transfer list \<Rightarrow> nat" where
  "frames_done ts = length (filter (\<lambda>t. entry_last (entry t)) ts)"

text \<open>The entries of a list up to and including the first one that carries the last flag.\<close>

fun first_frame :: "fifo_word list \<Rightarrow> fifo_word list" where
  "first_frame [] = []"
| "first_frame (w # ws) = (if entry_last w then [w] else w # first_frame ws)"

text \<open>
  The order in which the selector visits the bundles, on the pairs of a transfer's bundle
  and last flag: every transfer comes from the bundle \<open>c\<close> whose turn it is, and the
  turn passes on after a transfer with the last flag.
\<close>

fun round_robin :: "nat \<Rightarrow> nat \<Rightarrow> (nat \<times> bool) list \<Rightarrow> bool" where
  "round_robin N c [] = True"
| "round_robin N c ((b, l) # ts) =
     (b = c \<and> round_robin N (if l then (if c = N - 1 then 0 else c + 1) else c) ts)"

definition turn :: "transfer \<Rightarrow> nat \<times> bool" where
  "turn t = (from_bundle t, entry_last (entry t))"

text \<open>The invariant of the registers and of the FIFO array.\<close>

definition selector_inv :: "nat \<Rightarrow> mux_state \<Rightarrow> bool" where
  "selector_inv N s =
     (length (fifos s) = N \<and> current_bundle s < N \<and>
      first_bundle_channel s = current_bundle s * NO_CHANNELS_ADAT)"

text \<open>An input trace with every \<open>first\<close> flag of every bundle cleared.\<close>

definition forget_first :: "tick_in \<Rightarrow> tick_in" where
  "forget_first i = i \<lparr> bundles_in := (\<lambda>k. (bundles_in i k) \<lparr> in_first := False \<rparr>) \<rparr>"

section \<open>Stimuli\<close>

text \<open>
  The stimuli of the test bench: a source that sends nothing, a source that sends one
  sample as \<open>send_one_frame\<close> does (\<open>first\<close> on channel 0), here with the last flag
  chosen by the caller, and a cycle in which the listed bundles are driven.
\<close>

definition idle :: stream_in where
  "idle = \<lparr> in_valid = False, in_payload = 0, in_channel_nr = 0,
            in_first = False, in_last = False \<rparr>"

definition send :: "sample \<Rightarrow> bundle_channel_nr \<Rightarrow> bool \<Rightarrow> stream_in" where
  "send p c l = \<lparr> in_valid = True, in_payload = p, in_channel_nr = c,
                  in_first = (c = 0), in_last = l \<rparr>"

fun drive_bundles :: "(nat \<times> stream_in) list \<Rightarrow> nat \<Rightarrow> stream_in" where
  "drive_bundles [] k = idle"
| "drive_bundles ((b, e) # bs) k = (if k = b then e else drive_bundles bs k)"

definition cycle :: "(nat \<times> stream_in) list \<Rightarrow> bool \<Rightarrow> tick_in" where
  "cycle bs r = \<lparr> bundles_in = drive_bundles bs, out_ready = r \<rparr>"

text \<open>
  The test bench itself: \<open>send_one_frame\<close> drives one sample into a bundle, with the last
  flag on channel 7, while the consumer is ready; \<open>send_bundle_frame\<close> sends the eight
  channels of a bundle in consecutive cycles; \<open>test_smoke\<close> sends one frame to each of
  four bundles in turn.
\<close>

definition send_one_frame :: "nat \<Rightarrow> sample \<Rightarrow> bundle_channel_nr \<Rightarrow> tick_in" where
  "send_one_frame bundle smp channel = cycle [(bundle, send smp channel (channel = 7))] True"

definition send_bundle_frame :: "nat \<Rightarrow> sample \<Rightarrow> tick_in list" where
  "send_bundle_frame bundle smp =
     map (\<lambda>channel. send_one_frame bundle (push_bit 8 smp + of_nat channel) (of_nat channel))
       [0..<NO_CHANNELS_ADAT]"

definition test_smoke :: "tick_in list" where
  "test_smoke =
     [cycle [] False, cycle [] True]
     @ concat (map (\<lambda>bundle. send_bundle_frame bundle (of_nat bundle)) [0..<4])
     @ [cycle [] True, cycle [] True]"

text \<open>
  Two bundles after bundle 0 has sent a whole frame and then, together with bundle 1, the
  first sample of its next frame: the selector stands at bundle 1 and both FIFOs hold data.
\<close>

definition second_round_state :: mux_state where
  "second_round_state =
     run 2 (power_on 2)
       (send_bundle_frame 0 1 @ [cycle [(0, send 512 0 False), (1, send 768 0 False)] True])"

section \<open>Widths are large enough\<close>

lemma bit_length_bound: "n < 2 ^ bit_length n"
  by (induction n rule: bit_length.induct) (subst bit_length.simps, auto)

lemma range_width_bound: "0 < k \<Longrightarrow> k \<le> 2 ^ range_width k"
proof -
  assume k: "0 < k"
  have "k - 1 < 2 ^ bit_length (k - 1)" by (rule bit_length_bound)
  also have "\<dots> \<le> 2 ^ range_width k"
    using k by (auto simp: range_width_def intro!: power_increasing) (simp add: bits_for_def bit_length.simps)
  finally show ?thesis using k by simp
qed

lemma bundle_fits: "b < N \<Longrightarrow> b < 2 ^ current_bundle_bits N"
  using range_width_bound [of N] by (simp add: current_bundle_bits_def)

lemma channel_fits: "c < N * NO_CHANNELS_ADAT \<Longrightarrow> c < 2 ^ channel_bits N"
  using range_width_bound [of "N * NO_CHANNELS_ADAT"]
  by (cases "N = 0") (auto simp: channel_bits_def NO_CHANNELS_ADAT_def)

lemma unat_bundle_channel: "unat (c :: bundle_channel_nr) < NO_CHANNELS_ADAT"
  using unsigned_less [of c, where ?'a = nat] by (simp add: NO_CHANNELS_ADAT_def)

section \<open>The FIFO entry\<close>

lemma entry_sample_w_data: "entry_sample (w_data b) = in_payload b"
  unfolding entry_sample_def w_data_def Let_def
  by (rule bit_word_eqI) (auto simp add: bit_simps)

lemma entry_channel_w_data: "entry_channel (w_data b) = in_channel_nr b"
  unfolding entry_channel_def w_data_def Let_def
  by (rule bit_word_eqI) (auto simp add: bit_simps)

lemma entry_last_w_data: "entry_last (w_data b) = in_last b"
  unfolding entry_last_def w_data_def Let_def
  by (auto simp add: bit_simps)

section \<open>The invariant\<close>

lemma selector_inv_power_on: "0 < N \<Longrightarrow> selector_inv N (power_on N)"
  by (simp add: selector_inv_def power_on_def)

lemma selected_inv: "selector_inv N s \<Longrightarrow> selected s = fifos s ! current_bundle s"
  by (simp add: selector_inv_def selected_def array_index_def)

lemma next_current_bundle_inv:
  assumes "selector_inv N s"
  shows "next_current_bundle N s i =
     (if emitting s i \<and> bundle_last (selected s) then
        (if current_bundle s = N - 1 then 0 else current_bundle s + 1)
      else current_bundle s)"
proof -
  have "current_bundle s \<noteq> N - 1 \<Longrightarrow> current_bundle s + 1 < N"
    using assms by (auto simp: selector_inv_def)
  then show ?thesis
    by (simp add: next_current_bundle_def bundle_fits)
qed

lemma next_first_bundle_channel_inv:
  assumes "selector_inv N s"
  shows "next_first_bundle_channel N s i =
     (if emitting s i \<and> bundle_last (selected s) then
        (if current_bundle s = N - 1 then 0 else first_bundle_channel s + NO_CHANNELS_ADAT)
      else first_bundle_channel s)"
proof -
  have "current_bundle s \<noteq> N - 1 \<Longrightarrow>
        first_bundle_channel s + NO_CHANNELS_ADAT < N * NO_CHANNELS_ADAT"
  proof -
    assume "current_bundle s \<noteq> N - 1"
    then have "current_bundle s + 1 < N" using assms by (auto simp: selector_inv_def)
    then have "(current_bundle s + 1) * NO_CHANNELS_ADAT < N * NO_CHANNELS_ADAT"
      by (simp add: NO_CHANNELS_ADAT_def)
    then show ?thesis using assms by (simp add: selector_inv_def algebra_simps)
  qed
  then show ?thesis
    by (simp add: next_first_bundle_channel_def channel_fits)
qed

lemma current_bundle_tick: "current_bundle (tick N s i) = next_current_bundle N s i"
  by (simp add: tick_def)

lemma first_bundle_channel_tick:
  "first_bundle_channel (tick N s i) = next_first_bundle_channel N s i"
  by (simp add: tick_def)

lemma length_fifos_tick: "length (fifos (tick N s i)) = length (fifos s)"
  by (simp add: tick_def)

lemma selector_inv_tick: "selector_inv N s \<Longrightarrow> selector_inv N (tick N s i)"
proof -
  assume a: "selector_inv N s"
  show ?thesis
    unfolding selector_inv_def length_fifos_tick current_bundle_tick first_bundle_channel_tick
      next_current_bundle_inv [OF a] next_first_bundle_channel_inv [OF a]
    using a by (auto simp: selector_inv_def)
qed

lemma selector_inv_run: "selector_inv N s \<Longrightarrow> selector_inv N (run N s ins)"
  by (induction ins arbitrary: s) (simp_all add: selector_inv_tick)

lemma selector_inv_reached: "0 < N \<Longrightarrow> selector_inv N (run N (power_on N) ins)"
  by (simp add: selector_inv_run selector_inv_power_on)

lemma run_append: "run N s (xs @ ys) = run N (run N s xs) ys"
  by (induction xs arbitrary: s) simp_all

lemma out_channel_nr_inv:
  assumes "selector_inv N s" "emitting s i"
  shows "out_channel_nr (channel_stream_out N s i) =
           current_bundle s * NO_CHANNELS_ADAT + unat (bundle_channel (selected s))"
    and "out_channel_nr (channel_stream_out N s i) < N * NO_CHANNELS_ADAT"
proof -
  let ?c = "unat (bundle_channel (selected s))"
  have c: "?c < NO_CHANNELS_ADAT" by (rule unat_bundle_channel)
  have "current_bundle s + 1 \<le> N" using assms(1) by (simp add: selector_inv_def)
  then have "(current_bundle s + 1) * NO_CHANNELS_ADAT \<le> N * NO_CHANNELS_ADAT"
    by (rule mult_le_mono1)
  with c have lt: "current_bundle s * NO_CHANNELS_ADAT + ?c < N * NO_CHANNELS_ADAT"
    by (simp add: algebra_simps)
  have eq: "out_channel_nr (channel_stream_out N s i) =
        (current_bundle s * NO_CHANNELS_ADAT + ?c) mod 2 ^ channel_bits N"
    using assms by (simp add: channel_stream_out_def selector_inv_def)
  show "out_channel_nr (channel_stream_out N s i) = current_bundle s * NO_CHANNELS_ADAT + ?c"
    using eq channel_fits [OF lt] by simp
  then show "out_channel_nr (channel_stream_out N s i) < N * NO_CHANNELS_ADAT"
    using lt by simp
qed

section \<open>Channel numbering\<close>

text \<open>
  Claim C2.  In every state reached from power-on, an emitted output event carries the
  channel number \<open>first_bundle_channel + bundle_channel\<close>, which is the index of the
  selected bundle times the number of channels of a bundle plus the channel number of the
  entry read; the bundle index is below \<open>N\<close>, the channel number inside the bundle
  below 8, and the output channel number below \<open>N * 8\<close>.
\<close>

theorem channel_numbering:
  assumes "0 < N" and "s = run N (power_on N) ins" and "emitting s i"
  shows "out_channel_nr (channel_stream_out N s i) =
           first_bundle_channel s + unat (bundle_channel (fifos s ! current_bundle s))
       \<and> out_channel_nr (channel_stream_out N s i) =
           current_bundle s * NO_CHANNELS_ADAT + unat (bundle_channel (fifos s ! current_bundle s))
       \<and> current_bundle s < N
       \<and> unat (bundle_channel (fifos s ! current_bundle s)) < NO_CHANNELS_ADAT
       \<and> out_channel_nr (channel_stream_out N s i) < N * NO_CHANNELS_ADAT"
proof -
  have inv: "selector_inv N s" using assms(1,2) by (simp add: selector_inv_reached)
  have sel: "selected s = fifos s ! current_bundle s" using inv by (rule selected_inv)
  show ?thesis
    using out_channel_nr_inv [OF inv assms(3)] inv unat_bundle_channel
    by (simp add: sel selector_inv_def)
qed

theorem channel_numbering_witness:
  "(0::nat) < 4
   \<and> emitting (run 4 (power_on 4) [cycle [(0, send 5 3 False)] True]) (cycle [] True)
   \<and> out_channel_nr (channel_stream_out 4 (run 4 (power_on 4) [cycle [(0, send 5 3 False)] True])
        (cycle [] True)) = 3
   \<and> current_bundle (run 4 (power_on 4) [cycle [(0, send 5 3 False)] True]) * NO_CHANNELS_ADAT
      + unat (bundle_channel (fifos (run 4 (power_on 4) [cycle [(0, send 5 3 False)] True])
          ! current_bundle (run 4 (power_on 4) [cycle [(0, send 5 3 False)] True]))) = 3"
proof -
  have e: "emitting (run 4 (power_on 4) [cycle [(0, send 5 3 False)] True]) (cycle [] True)"
    by code_simp
  show ?thesis
    using channel_numbering [of 4 "run 4 (power_on 4) [cycle [(0, send 5 3 False)] True]"
        "[cycle [(0, send 5 3 False)] True]" "cycle [] True", OF _ refl e] e
    by code_simp
qed


section \<open>Outputs of a run\<close>

lemma length_outputs: "length (outputs N s ins) = length ins"
  by (induction ins arbitrary: s) simp_all

lemma nth_outputs:
  "t < length ins \<Longrightarrow>
     outputs N s ins ! t = channel_stream_out N (run N s (take t ins)) (ins ! t)"
proof (induction ins arbitrary: s t)
  case Nil
  then show ?case by simp
next
  case (Cons i "is")
  then show ?case by (cases t) simp_all
qed

lemma out_valid_emitting: "out_valid (channel_stream_out N s i) = emitting s i"
  by (simp add: channel_stream_out_def)

lemma emitting_ready: "emitting s i \<Longrightarrow> out_ready i"
  by (simp add: emitting_def)

section \<open>The output handshake\<close>

text \<open>
  Claim C10.  The output \<open>valid\<close> and every read enable are asserted only in a cycle
  in which the consumer asserts \<open>ready\<close>.  So a consumer that raises \<open>ready\<close> only
  after it has seen \<open>valid\<close> in an earlier cycle never sees \<open>valid\<close>.
\<close>

theorem valid_implies_ready:
  "(out_valid (channel_stream_out N s i) \<longrightarrow> out_ready i)
   \<and> (read_enable s i k \<longrightarrow> out_ready i)
   \<and> ((\<forall>t < length ins. out_ready (ins ! t) \<longrightarrow> (\<exists>u < t. out_valid (outputs N s ins ! u)))
        \<longrightarrow> (\<forall>t < length ins. \<not> out_valid (outputs N s ins ! t)))"
proof (intro conjI impI)
  assume "out_valid (channel_stream_out N s i)"
  then show "out_ready i" by (simp add: out_valid_emitting emitting_ready)
next
  assume "read_enable s i k"
  then show "out_ready i" by (auto simp: read_enable_def dest: emitting_ready)
next
  assume waits: "\<forall>t < length ins. out_ready (ins ! t) \<longrightarrow> (\<exists>u < t. out_valid (outputs N s ins ! u))"
  have "t < length ins \<Longrightarrow> \<not> out_valid (outputs N s ins ! t)" for t
  proof (induction t rule: less_induct)
    case (less t)
    show ?case
    proof
      assume v: "out_valid (outputs N s ins ! t)"
      then have "out_ready (ins ! t)"
        using less.prems by (simp add: nth_outputs out_valid_emitting emitting_ready)
      with waits less.prems obtain u where "u < t" "out_valid (outputs N s ins ! u)" by blast
      with less show False by force
    qed
  qed
  then show "\<forall>t < length ins. \<not> out_valid (outputs N s ins ! t)" by blast
qed

theorem valid_implies_ready_witness:
  "out_valid (channel_stream_out 4 (run 4 (power_on 4) [cycle [(0, send 5 3 False)] True]) (cycle [] True))
   \<and> read_enable (run 4 (power_on 4) [cycle [(0, send 5 3 False)] True]) (cycle [] True) 0
   \<and> out_ready (cycle [] True)
   \<and> \<not> out_ready ([cycle [(0, send 5 0 False)] False, cycle [] False] ! 0)
   \<and> \<not> out_ready ([cycle [(0, send 5 0 False)] False, cycle [] False] ! 1)
   \<and> \<not> out_valid (outputs 4 (power_on 4) [cycle [(0, send 5 0 False)] False, cycle [] False] ! 0)
   \<and> \<not> out_valid (outputs 4 (power_on 4) [cycle [(0, send 5 0 False)] False, cycle [] False] ! 1)"
proof -
  have v: "out_valid (channel_stream_out 4 (run 4 (power_on 4) [cycle [(0, send 5 3 False)] True]) (cycle [] True))"
    by code_simp
  have r: "\<forall>t < length [cycle [(0, send 5 0 False)] False, cycle [] False].
      out_ready ([cycle [(0, send 5 0 False)] False, cycle [] False] ! t) \<longrightarrow>
      (\<exists>u < t. out_valid (outputs 4 (power_on 4) [cycle [(0, send 5 0 False)] False, cycle [] False] ! u))"
    by (simp add: less_Suc_eq cycle_def)
  have e: "read_enable (run 4 (power_on 4) [cycle [(0, send 5 3 False)] True]) (cycle [] True) 0"
    by code_simp
  have a: "out_ready (cycle [] True)"
    using valid_implies_ready [of 4 "run 4 (power_on 4) [cycle [(0, send 5 3 False)] True]" "cycle [] True" 0] v e
    by blast
  have b: "\<forall>t < length [cycle [(0, send 5 0 False)] False, cycle [] False].
      \<not> out_valid (outputs 4 (power_on 4) [cycle [(0, send 5 0 False)] False, cycle [] False] ! t)"
    using valid_implies_ready [of 4 "power_on 4" "cycle [] True" 0 "[cycle [(0, send 5 0 False)] False, cycle [] False]"] r
    by blast
  show ?thesis using v e a b by (simp add: cycle_def less_Suc_eq)
qed

section \<open>The selector registers\<close>

lemma selector_tick:
  assumes "selector_inv N s"
  shows "(current_bundle (tick N s i), first_bundle_channel (tick N s i)) =
     (if emitting s i \<and> bundle_last (selected s) then
        (if current_bundle s = N - 1 then (0, 0)
         else (current_bundle s + 1, first_bundle_channel s + NO_CHANNELS_ADAT))
      else (current_bundle s, first_bundle_channel s))"
  by (simp add: current_bundle_tick first_bundle_channel_tick
      next_current_bundle_inv [OF assms] next_first_bundle_channel_inv [OF assms])

text \<open>
  Claim C3.  In every state reached from power-on
  \<open>first_bundle_channel = current_bundle * 8\<close>; both registers are 0 at power-on, and
  both are 0 again after a cycle that consumes an entry with the last flag from the last
  bundle.
\<close>

theorem channel_base_invariant:
  assumes "0 < N" and "s = run N (power_on N) ins"
  shows "first_bundle_channel s = current_bundle s * NO_CHANNELS_ADAT
       \<and> current_bundle (power_on N) = 0 \<and> first_bundle_channel (power_on N) = 0
       \<and> (emitting s i \<and> bundle_last (selected s) \<and> current_bundle s = N - 1 \<longrightarrow>
            current_bundle (tick N s i) = 0 \<and> first_bundle_channel (tick N s i) = 0)"
proof -
  have inv: "selector_inv N s" using assms by (simp add: selector_inv_reached)
  have "first_bundle_channel s = current_bundle s * NO_CHANNELS_ADAT"
    using inv by (simp add: selector_inv_def)
  moreover have "current_bundle (power_on N) = 0 \<and> first_bundle_channel (power_on N) = 0"
    by (simp add: power_on_def)
  moreover have "emitting s i \<and> bundle_last (selected s) \<and> current_bundle s = N - 1 \<longrightarrow>
            current_bundle (tick N s i) = 0 \<and> first_bundle_channel (tick N s i) = 0"
    using selector_tick [OF inv, of i] by auto
  ultimately show ?thesis by blast
qed

theorem channel_base_invariant_witness:
  "(0::nat) < 2
   \<and> first_bundle_channel (run 2 (power_on 2)
        [cycle [(0, send 5 0 True), (1, send 6 7 True)] True, cycle [] True]) = 8
   \<and> current_bundle (run 2 (power_on 2)
        [cycle [(0, send 5 0 True), (1, send 6 7 True)] True, cycle [] True]) = 1
   \<and> emitting (run 2 (power_on 2)
        [cycle [(0, send 5 0 True), (1, send 6 7 True)] True, cycle [] True]) (cycle [] True)
   \<and> current_bundle (tick 2 (run 2 (power_on 2)
        [cycle [(0, send 5 0 True), (1, send 6 7 True)] True, cycle [] True]) (cycle [] True)) = 0
   \<and> first_bundle_channel (tick 2 (run 2 (power_on 2)
        [cycle [(0, send 5 0 True), (1, send 6 7 True)] True, cycle [] True]) (cycle [] True)) = 0"
proof -
  let ?s = "run 2 (power_on 2) [cycle [(0, send 5 0 True), (1, send 6 7 True)] True, cycle [] True]"
  have h: "emitting ?s (cycle [] True) \<and> bundle_last (selected ?s) \<and> current_bundle ?s = 2 - 1"
    by code_simp
  have c: "current_bundle ?s = 1" by code_simp
  show ?thesis
    using channel_base_invariant [of 2 ?s
        "[cycle [(0, send 5 0 True), (1, send 6 7 True)] True, cycle [] True]" "cycle [] True"] h c
    by (simp add: NO_CHANNELS_ADAT_def)
qed


lemma frames_done_append: "frames_done (xs @ ys) = frames_done xs + frames_done ys"
  by (simp add: frames_done_def)

lemma frames_done_transfer_of:
  "frames_done (transfer_of N s i) = (if emitting s i \<and> bundle_last (selected s) then 1 else 0)"
  by (simp add: frames_done_def transfer_of_def bundle_last_def)

lemma current_bundle_run:
  "selector_inv N s \<Longrightarrow>
     current_bundle (run N s ins) = (current_bundle s + frames_done (transfers N s ins)) mod N"
proof (induction ins arbitrary: s)
  case Nil
  then show ?case by (simp add: frames_done_def selector_inv_def)
next
  case (Cons i "is")
  have inv': "selector_inv N (tick N s i)" using Cons.prems by (rule selector_inv_tick)
  have lt: "current_bundle s < N" using Cons.prems by (simp add: selector_inv_def)
  define d where "d = (emitting s i \<and> bundle_last (selected s))"
  have cb: "current_bundle (tick N s i) =
      (if d then (if current_bundle s = N - 1 then 0 else current_bundle s + 1) else current_bundle s)"
    unfolding d_def by (simp add: current_bundle_tick next_current_bundle_inv [OF Cons.prems])
  have fd: "frames_done (transfer_of N s i) = (if d then 1 else 0)"
    unfolding d_def by (rule frames_done_transfer_of)
  have step: "(current_bundle (tick N s i) + k) mod N
      = (current_bundle s + frames_done (transfer_of N s i) + k) mod N" for k
  proof (cases "d \<and> current_bundle s = N - 1")
    case False
    then show ?thesis unfolding cb fd by auto
  next
    case True
    then have "current_bundle s + 1 = N" using lt by simp
    then have "(current_bundle s + 1 + k) mod N = k mod N" by simp
    with True show ?thesis unfolding cb fd by simp
  qed
  show ?case
    using Cons.IH [OF inv'] step [of "frames_done (transfers N (tick N s i) is)"]
    by (simp add: frames_done_append add.assoc)
qed

text \<open>
  Claim C4.  In a state reached from power-on one cycle changes the pair of registers as
  follows: when an entry with the last flag is consumed, to \<open>(0, 0)\<close> if the current
  bundle is the last one and to \<open>(current_bundle + 1, first_bundle_channel + 8)\<close>
  otherwise; in every other cycle the pair is unchanged.  From a state at the start of a
  round, a run that completes \<open>N\<close> frames ends with the registers of the power-on
  state.
\<close>

theorem selector_transition:
  assumes "0 < N" and "s = run N (power_on N) ins"
  shows "(current_bundle (tick N s i), first_bundle_channel (tick N s i)) =
           (if emitting s i \<and> bundle_last (selected s) then
              (if current_bundle s = N - 1 then (0, 0)
               else (current_bundle s + 1, first_bundle_channel s + NO_CHANNELS_ADAT))
            else (current_bundle s, first_bundle_channel s))
       \<and> (current_bundle s = 0 \<and> frames_done (transfers N s rest) = N \<longrightarrow>
            current_bundle (run N s rest) = current_bundle (power_on N)
          \<and> first_bundle_channel (run N s rest) = first_bundle_channel (power_on N))"
proof -
  have inv: "selector_inv N s" using assms by (simp add: selector_inv_reached)
  have inv': "selector_inv N (run N s rest)" using inv by (rule selector_inv_run)
  have "current_bundle s = 0 \<and> frames_done (transfers N s rest) = N \<longrightarrow>
          current_bundle (run N s rest) = 0"
    using current_bundle_run [OF inv, of rest] by simp
  moreover have "current_bundle (run N s rest) = 0 \<longrightarrow> first_bundle_channel (run N s rest) = 0"
    using inv' by (simp add: selector_inv_def)
  ultimately show ?thesis
    using selector_tick [OF inv, of i] by (simp add: power_on_def)
qed

theorem selector_transition_witness:
  "(0::nat) < 2
   \<and> current_bundle (power_on 2) = 0
   \<and> frames_done (transfers 2 (power_on 2)
        [cycle [(0, send 5 0 True), (1, send 6 7 True)] True, cycle [] True, cycle [] True]) = 2
   \<and> current_bundle (run 2 (power_on 2)
        [cycle [(0, send 5 0 True), (1, send 6 7 True)] True, cycle [] True, cycle [] True]) = 0
   \<and> first_bundle_channel (run 2 (power_on 2)
        [cycle [(0, send 5 0 True), (1, send 6 7 True)] True, cycle [] True, cycle [] True]) = 0"
proof -
  let ?rest = "[cycle [(0, send 5 0 True), (1, send 6 7 True)] True, cycle [] True, cycle [] True]"
  have h: "current_bundle (power_on 2) = 0 \<and> frames_done (transfers 2 (power_on 2) ?rest) = 2"
    by code_simp
  show ?thesis
    using selector_transition [of 2 "power_on 2" "[]" "cycle [] True" ?rest] h
    by (simp add: power_on_def)
qed

section \<open>The input's first flag\<close>

lemma w_data_first: "w_data (b \<lparr> in_first := f \<rparr>) = w_data b"
  by (simp add: w_data_def)

lemma emitting_forget_first: "emitting s (forget_first i) = emitting s i"
  by (simp add: emitting_def forget_first_def)

lemma channel_stream_out_forget_first:
  "channel_stream_out N s (forget_first i) = channel_stream_out N s i"
  by (simp add: channel_stream_out_def emitting_forget_first)

lemma tick_forget_first: "tick N s (forget_first i) = tick N s i"
  by (simp add: tick_def next_current_bundle_def next_first_bundle_channel_def read_enable_def
      emitting_forget_first) (simp add: forget_first_def w_data_first)

lemma outputs_forget_first: "outputs N s (map forget_first ins) = outputs N s ins"
  by (induction ins arbitrary: s) (simp_all add: channel_stream_out_forget_first tick_forget_first)

lemma run_forget_first: "run N s (map forget_first ins) = run N s ins"
  by (induction ins arbitrary: s) (simp_all add: tick_forget_first)

text \<open>
  Claim C9.  Two input traces that differ only in the \<open>first\<close> flags of the bundle
  inputs produce the same output stream, cycle by cycle, and the same state.
\<close>

theorem input_first_unused:
  assumes "map forget_first ins1 = map forget_first ins2"
  shows "outputs N s ins1 = outputs N s ins2 \<and> run N s ins1 = run N s ins2"
proof -
  have "outputs N s ins1 = outputs N s (map forget_first ins1)"
    by (simp add: outputs_forget_first)
  also have "\<dots> = outputs N s ins2" by (simp add: assms outputs_forget_first)
  finally have o: "outputs N s ins1 = outputs N s ins2" .
  have "run N s ins1 = run N s (map forget_first ins1)" by (simp add: run_forget_first)
  also have "\<dots> = run N s ins2" by (simp add: assms run_forget_first)
  finally show ?thesis using o by simp
qed

theorem input_first_unused_witness:
  "map forget_first [cycle [(0, send 5 0 True)] True, cycle [] True]
     = map forget_first [cycle [(0, (send 5 0 True) \<lparr> in_first := False \<rparr>)] True, cycle [] True]
   \<and> [cycle [(0, send 5 0 True)] True, cycle [] True]
       \<noteq> [cycle [(0, (send 5 0 True) \<lparr> in_first := False \<rparr>)] True, cycle [] True]
   \<and> outputs 2 (power_on 2) [cycle [(0, send 5 0 True)] True, cycle [] True]
     = outputs 2 (power_on 2) [cycle [(0, (send 5 0 True) \<lparr> in_first := False \<rparr>)] True, cycle [] True]
   \<and> map out_valid (outputs 2 (power_on 2) [cycle [(0, send 5 0 True)] True, cycle [] True])
     = [False, True]"
proof -
  have h: "map forget_first [cycle [(0, send 5 0 True)] True, cycle [] True]
     = map forget_first [cycle [(0, (send 5 0 True) \<lparr> in_first := False \<rparr>)] True, cycle [] True]"
    by (auto simp: forget_first_def cycle_def send_def idle_def fun_eq_iff)
  have d: "bundles_in (cycle [(0, send 5 0 True)] True) 0
        \<noteq> bundles_in (cycle [(0, (send 5 0 True) \<lparr> in_first := False \<rparr>)] True) 0"
    by (simp add: cycle_def send_def)
  then have d': "cycle [(0, send 5 0 True)] True \<noteq> cycle [(0, (send 5 0 True) \<lparr> in_first := False \<rparr>)] True"
    by metis
  have v: "map out_valid (outputs 2 (power_on 2) [cycle [(0, send 5 0 True)] True, cycle [] True])
     = [False, True]" by code_simp
  show ?thesis
    using input_first_unused [OF h, of 2 "power_on 2"] h d' v by simp
qed


section \<open>Transfers of a run\<close>

lemma transfers_append:
  "transfers N s (xs @ ys) = transfers N s xs @ transfers N (run N s xs) ys"
  by (induction xs arbitrary: s) simp_all

lemma accepted_append:
  "accepted N s (xs @ ys) k = accepted N s xs k @ accepted N (run N s xs) ys k"
  by (induction xs arbitrary: s) simp_all

lemma events_of_transfers: "map event (transfers N s ins) = filter out_valid (outputs N s ins)"
  by (induction ins arbitrary: s) (simp_all add: transfer_of_def out_valid_emitting)

lemma transfer_of_inv:
  assumes "selector_inv N s" "emitting s i"
  shows "transfer_of N s i =
     [\<lparr> from_bundle = current_bundle s, entry = r_data (fifos s ! current_bundle s),
        event = event_of N (current_bundle s) (r_data (fifos s ! current_bundle s)) \<rparr>]"
proof -
  have sel: "selected s = fifos s ! current_bundle s" using assms(1) by (rule selected_inv)
  have idx: "array_index (length (fifos s)) (current_bundle s) = current_bundle s"
    using assms(1) by (simp add: selector_inv_def array_index_def)
  have nr: "out_channel_nr (channel_stream_out N s i) =
      current_bundle s * NO_CHANNELS_ADAT + unat (entry_channel (r_data (fifos s ! current_bundle s)))"
    using out_channel_nr_inv(1) [OF assms] by (simp add: sel bundle_channel_def)
  have ev: "channel_stream_out N s i = event_of N (current_bundle s) (r_data (fifos s ! current_bundle s))"
    using assms(2) nr
    by (simp add: channel_stream_out_def event_of_def sel bundle_sample_def bundle_channel_def
        bundle_last_def)
  show ?thesis using assms(2) by (simp add: transfer_of_def idx sel ev)
qed

lemma transfers_event_of:
  "selector_inv N s \<Longrightarrow> t \<in> set (transfers N s ins) \<Longrightarrow>
     event t = event_of N (from_bundle t) (entry t) \<and> from_bundle t < N"
proof (induction ins arbitrary: s)
  case Nil
  then show ?case by simp
next
  case (Cons i "is")
  from Cons.prems(2) consider "t \<in> set (transfer_of N s i)" | "t \<in> set (transfers N (tick N s i) is)"
    by auto
  then show ?case
  proof cases
    case 1
    then have e: "emitting s i" by (simp add: transfer_of_def split: if_splits)
    from 1 show ?thesis
      using Cons.prems(1) by (simp add: transfer_of_inv [OF Cons.prems(1) e] selector_inv_def)
  next
    case 2
    then show ?thesis using Cons.IH [OF selector_inv_tick [OF Cons.prems(1)]] by simp
  qed
qed

lemma round_robin_transfers:
  "selector_inv N s \<Longrightarrow> round_robin N (current_bundle s) (map turn (transfers N s ins))"
proof (induction ins arbitrary: s)
  case Nil
  then show ?case by simp
next
  case (Cons i "is")
  have inv': "selector_inv N (tick N s i)" using Cons.prems by (rule selector_inv_tick)
  have sel: "selected s = fifos s ! current_bundle s" using Cons.prems by (rule selected_inv)
  show ?case
  proof (cases "emitting s i")
    case False
    then have "current_bundle (tick N s i) = current_bundle s"
      by (simp add: current_bundle_tick next_current_bundle_def)
    with False Cons.IH [OF inv'] show ?thesis by (simp add: transfer_of_def)
  next
    case True
    have "current_bundle (tick N s i) =
        (if entry_last (r_data (fifos s ! current_bundle s))
         then (if current_bundle s = N - 1 then 0 else current_bundle s + 1)
         else current_bundle s)"
      using True
      by (simp add: current_bundle_tick next_current_bundle_inv [OF Cons.prems] sel bundle_last_def)
    with Cons.IH [OF inv'] show ?thesis
      by (simp add: transfer_of_inv [OF Cons.prems True] turn_def)
  qed
qed

section \<open>What a FIFO accepts is what it hands on\<close>

lemma fifos_tick_nth:
  "k < length (fifos s) \<Longrightarrow>
     fifos (tick N s i) ! k =
       fifo_step NO_CHANNELS_ADAT (fifos s ! k) (in_valid (bundles_in i k))
         (w_data (bundles_in i k)) (read_enable s i k)"
  by (simp add: tick_def)

lemma fifo_step_accepted:
  "fifo_step NO_CHANNELS_ADAT (fifos s ! k) (in_valid (bundles_in i k)) (w_data (bundles_in i k)) r
     = (if r \<and> r_rdy (fifos s ! k) then tl (fifos s ! k) else fifos s ! k)
         @ map w_data (accepted_of s i k)"
  by (simp add: fifo_step_def accepted_of_def Let_def)

lemma r_data_tl: "r_rdy q \<Longrightarrow> r_data q # tl q = q"
  by (cases q) (simp_all add: r_rdy_def r_data_def)

lemma fifo_tick_conservation:
  assumes "k < length (fifos s)"
  shows "fifos s ! k @ map w_data (accepted_of s i k) =
           map entry (filter (\<lambda>t. from_bundle t = k) (transfer_of N s i)) @ fifos (tick N s i) ! k"
proof (cases "read_enable s i k")
  case True
  then have e: "emitting s i" and k: "k = array_index (length (fifos s)) (current_bundle s)"
    by (simp_all add: read_enable_def)
  have sel: "selected s = fifos s ! k" by (simp add: selected_def k)
  have rdy: "r_rdy (fifos s ! k)" using e by (simp add: emitting_def bundle_ready_def sel)
  show ?thesis
    using True e rdy r_data_tl [OF rdy]
    by (simp add: fifos_tick_nth [OF assms] fifo_step_accepted transfer_of_def sel k [symmetric])
next
  case False
  then have "filter (\<lambda>t. from_bundle t = k) (transfer_of N s i) = []"
    by (auto simp: transfer_of_def read_enable_def)
  with False show ?thesis
    by (simp add: fifos_tick_nth [OF assms] fifo_step_accepted)
qed

lemma fifo_conservation:
  "k < length (fifos s) \<Longrightarrow>
     fifos s ! k @ map w_data (accepted N s ins k) =
       map entry (filter (\<lambda>t. from_bundle t = k) (transfers N s ins)) @ fifos (run N s ins) ! k"
proof (induction ins arbitrary: s)
  case Nil
  then show ?case by simp
next
  case (Cons i "is")
  have k': "k < length (fifos (tick N s i))" using Cons.prems by (simp add: length_fifos_tick)
  have "fifos s ! k @ map w_data (accepted N s (i # is) k) =
        (fifos s ! k @ map w_data (accepted_of s i k)) @ map w_data (accepted N (tick N s i) is k)"
    by simp
  also have "\<dots> = map entry (filter (\<lambda>t. from_bundle t = k) (transfer_of N s i))
        @ (fifos (tick N s i) ! k @ map w_data (accepted N (tick N s i) is k))"
    by (simp add: fifo_tick_conservation [OF Cons.prems])
  also have "\<dots> = map entry (filter (\<lambda>t. from_bundle t = k) (transfer_of N s i))
        @ map entry (filter (\<lambda>t. from_bundle t = k) (transfers N (tick N s i) is))
        @ fifos (run N (tick N s i) is) ! k"
    by (simp add: Cons.IH [OF k'])
  finally show ?case by simp
qed

lemma channel_div: "c < NO_CHANNELS_ADAT \<Longrightarrow> (b * NO_CHANNELS_ADAT + c) div NO_CHANNELS_ADAT = b"
  by (simp add: NO_CHANNELS_ADAT_def)

lemma outputs_of_bundle:
  assumes "selector_inv N s"
  shows "filter (\<lambda>v. out_valid v \<and> out_channel_nr v div NO_CHANNELS_ADAT = k) (outputs N s ins)
       = map (\<lambda>t. event_of N k (entry t)) (filter (\<lambda>t. from_bundle t = k) (transfers N s ins))"
proof -
  have ev: "t \<in> set (transfers N s ins) \<Longrightarrow> event t = event_of N (from_bundle t) (entry t)" for t
    using transfers_event_of [OF assms] by blast
  have "filter (\<lambda>v. out_valid v \<and> out_channel_nr v div NO_CHANNELS_ADAT = k) (outputs N s ins)
      = filter (\<lambda>v. out_channel_nr v div NO_CHANNELS_ADAT = k) (map event (transfers N s ins))"
    by (simp add: events_of_transfers conj_commute)
  also have "\<dots> = map event
      (filter (\<lambda>t. out_channel_nr (event t) div NO_CHANNELS_ADAT = k) (transfers N s ins))"
    by (simp add: filter_map comp_def)
  also have "filter (\<lambda>t. out_channel_nr (event t) div NO_CHANNELS_ADAT = k) (transfers N s ins)
      = filter (\<lambda>t. from_bundle t = k) (transfers N s ins)"
    by (rule filter_cong [OF refl]) (simp add: ev event_of_def channel_div unat_bundle_channel)
  also have "map event (filter (\<lambda>t. from_bundle t = k) (transfers N s ins))
      = map (\<lambda>t. event_of N k (entry t)) (filter (\<lambda>t. from_bundle t = k) (transfers N s ins))"
    by (rule map_cong [OF refl]) (simp add: ev)
  finally show ?thesis .
qed

text \<open>
  Claim C7.  For every bundle \<open>k\<close> and every run from power-on, the entries the FIFO
  of bundle \<open>k\<close> accepted are, in the order accepted, the entries transferred from
  bundle \<open>k\<close> followed by the entries still in the FIFO: no entry is transferred twice
  and none is skipped.  On the output stream, the valid events of bundle \<open>k\<close> (those
  whose channel number divided by 8 is \<open>k\<close>) carry, in order, the payloads and the
  channel numbers of the first events the bundle's source sent.
\<close>

theorem order_preservation:
  assumes "0 < N" and "k < N"
  shows "map w_data (accepted N (power_on N) ins k) =
           map entry (filter (\<lambda>t. from_bundle t = k) (transfers N (power_on N) ins))
             @ fifos (run N (power_on N) ins) ! k
       \<and> map (\<lambda>v. (out_payload v, out_channel_nr v))
           (filter (\<lambda>v. out_valid v \<and> out_channel_nr v div NO_CHANNELS_ADAT = k)
              (outputs N (power_on N) ins)) =
         map (\<lambda>e. (in_payload e, k * NO_CHANNELS_ADAT + unat (in_channel_nr e)))
           (take (length (filter (\<lambda>v. out_valid v \<and> out_channel_nr v div NO_CHANNELS_ADAT = k)
                    (outputs N (power_on N) ins)))
              (accepted N (power_on N) ins k))"
proof -
  let ?s = "power_on N"
  let ?tk = "filter (\<lambda>t. from_bundle t = k) (transfers N ?s ins)"
  let ?ok = "filter (\<lambda>v. out_valid v \<and> out_channel_nr v div NO_CHANNELS_ADAT = k) (outputs N ?s ins)"
  have inv: "selector_inv N ?s" using assms(1) by (rule selector_inv_power_on)
  have k: "k < length (fifos ?s)" using assms(2) by (simp add: power_on_def)
  have empty: "fifos ?s ! k = []" using assms(2) by (simp add: power_on_def)
  have cons: "map w_data (accepted N ?s ins k) = map entry ?tk @ fifos (run N ?s ins) ! k"
    using fifo_conservation [OF k, of N ins] by (simp add: empty)
  have ok: "?ok = map (\<lambda>t. event_of N k (entry t)) ?tk" using inv by (rule outputs_of_bundle)
  then have len: "length ?ok = length ?tk" by simp
  have "map entry ?tk = take (length ?tk) (map w_data (accepted N ?s ins k))"
    by (simp add: cons)
  then have tk: "map entry ?tk = map w_data (take (length ?ok) (accepted N ?s ins k))"
    by (simp add: len take_map)
  have "map (\<lambda>v. (out_payload v, out_channel_nr v)) ?ok
      = map (\<lambda>w. (entry_sample w, k * NO_CHANNELS_ADAT + unat (entry_channel w))) (map entry ?tk)"
    unfolding ok by (simp add: event_of_def comp_def)
  also have "\<dots> = map (\<lambda>e. (in_payload e, k * NO_CHANNELS_ADAT + unat (in_channel_nr e)))
      (take (length ?ok) (accepted N ?s ins k))"
    unfolding tk by (simp add: comp_def entry_sample_w_data entry_channel_w_data)
  finally show ?thesis using cons by blast
qed

theorem order_preservation_witness:
  "(0::nat) < 2 \<and> (1::nat) < 2
   \<and> map (\<lambda>e. (in_payload e, in_channel_nr e))
       (accepted 2 (power_on 2)
         [cycle [(0, send 9 0 True), (1, send 5 0 False)] True, cycle [(1, send 6 1 False)] True,
          cycle [(1, send 7 2 True)] True, cycle [] True] 1) = [(5, 0), (6, 1), (7, 2)]
   \<and> map (\<lambda>v. (out_payload v, out_channel_nr v))
       (filter (\<lambda>v. out_valid v \<and> out_channel_nr v div NO_CHANNELS_ADAT = 1)
         (outputs 2 (power_on 2)
           [cycle [(0, send 9 0 True), (1, send 5 0 False)] True, cycle [(1, send 6 1 False)] True,
            cycle [(1, send 7 2 True)] True, cycle [] True])) = [(5, 8), (6, 9)]
   \<and> fifos (run 2 (power_on 2)
         [cycle [(0, send 9 0 True), (1, send 5 0 False)] True, cycle [(1, send 6 1 False)] True,
          cycle [(1, send 7 2 True)] True, cycle [] True]) ! 1 = [w_data (send 7 2 True)]"
proof -
  let ?ins = "[cycle [(0, send 9 0 True), (1, send 5 0 False)] True, cycle [(1, send 6 1 False)] True,
          cycle [(1, send 7 2 True)] True, cycle [] True]"
  have a: "map (\<lambda>e. (in_payload e, in_channel_nr e)) (accepted 2 (power_on 2) ?ins 1)
      = [(5, 0), (6, 1), (7, 2)]"
    by code_simp
  have f: "fifos (run 2 (power_on 2) ?ins) ! 1 = [w_data (send 7 2 True)]"
    by code_simp
  have n: "length (filter (\<lambda>v. out_valid v \<and> out_channel_nr v div NO_CHANNELS_ADAT = 1)
         (outputs 2 (power_on 2) ?ins)) = 2"
    by code_simp
  have t: "map (\<lambda>e. (in_payload e, 1 * NO_CHANNELS_ADAT + unat (in_channel_nr e)))
      (take 2 (accepted 2 (power_on 2) ?ins 1)) = [(5, 8), (6, 9)]"
    by code_simp
  show ?thesis
    using order_preservation [of 2 1 ?ins] a f t unfolding n by simp
qed


section \<open>Cycles without a transfer\<close>

lemma stall_tick:
  assumes "\<not> emitting s i"
  shows "current_bundle (tick N s i) = current_bundle s"
    and "first_bundle_channel (tick N s i) = first_bundle_channel s"
    and "transfer_of N s i = []"
    and "\<not> out_valid (channel_stream_out N s i)"
  using assms
  by (simp_all add: current_bundle_tick first_bundle_channel_tick next_current_bundle_def
      next_first_bundle_channel_def transfer_of_def out_valid_emitting)

lemma stall_tick_fifo:
  assumes "\<not> emitting s i" "k < length (fifos s)"
  shows "fifos (tick N s i) ! k = fifos s ! k @ map w_data (accepted_of s i k)"
  using fifo_tick_conservation [OF assms(2), of i N] stall_tick(3) [OF assms(1), of N] by simp

lemma stall_run:
  "\<forall>j \<in> set stall. \<not> out_ready j \<Longrightarrow>
     transfers N s stall = []
   \<and> current_bundle (run N s stall) = current_bundle s
   \<and> first_bundle_channel (run N s stall) = first_bundle_channel s
   \<and> length (fifos (run N s stall)) = length (fifos s)"
proof (induction stall arbitrary: s)
  case Nil
  then show ?case by simp
next
  case (Cons j js)
  have ne: "\<not> emitting s j" using Cons.prems by (auto dest: emitting_ready)
  have "\<forall>j \<in> set js. \<not> out_ready j" using Cons.prems by simp
  from Cons.IH [OF this, of "tick N s j"] show ?case
    by (simp add: stall_tick [OF ne] length_fifos_tick)
qed

lemma stall_run_fifo:
  assumes "\<forall>j \<in> set stall. \<not> out_ready j" "k < length (fifos s)"
  shows "fifos (run N s stall) ! k = fifos s ! k @ map w_data (accepted N s stall k)"
  using fifo_conservation [OF assms(2), of N stall] stall_run [OF assms(1), of N s] by simp

lemma stall_run_outputs:
  assumes "\<forall>j \<in> set stall. \<not> out_ready j"
  shows "\<forall>v \<in> set (outputs N s stall). \<not> out_valid v"
proof -
  have "filter out_valid (outputs N s stall) = []"
    using events_of_transfers [of N s stall] stall_run [OF assms, of N s] by simp
  then show ?thesis by (simp add: filter_empty_conv)
qed

lemma r_data_append: "r_rdy q \<Longrightarrow> r_data (q @ ws) = r_data q"
  by (cases q) (simp_all add: r_rdy_def r_data_def)

lemma r_rdy_append: "r_rdy q \<Longrightarrow> r_rdy (q @ ws)"
  by (simp add: r_rdy_def)

lemma stall_resume:
  assumes inv: "selector_inv N s" and stall: "\<forall>j \<in> set stall. \<not> out_ready j"
    and rdy: "bundle_ready (selected s)" and r: "out_ready r"
  shows "channel_stream_out N (run N s stall) r = channel_stream_out N s r"
    and "transfer_of N (run N s stall) r = transfer_of N s r"
    and "emitting (run N s stall) r"
proof -
  note st = stall_run [OF stall, of N s]
  have k: "current_bundle s < length (fifos s)" using inv by (simp add: selector_inv_def)
  have inv': "selector_inv N (run N s stall)" using inv by (rule selector_inv_run)
  have sel: "selected s = fifos s ! current_bundle s" using inv by (rule selected_inv)
  have sel': "selected (run N s stall) =
      selected s @ map w_data (accepted N s stall (current_bundle s))"
    using selected_inv [OF inv'] st stall_run_fifo [OF stall k, of N] by (simp add: sel)
  have q: "r_rdy (selected s)" using rdy by (simp add: bundle_ready_def)
  have d: "r_data (selected (run N s stall)) = r_data (selected s)"
    unfolding sel' using q by (rule r_data_append)
  have e: "emitting s r" using rdy r by (simp add: emitting_def)
  show e': "emitting (run N s stall) r"
    using q r by (simp add: emitting_def bundle_ready_def sel' r_rdy_append)
  show c: "channel_stream_out N (run N s stall) r = channel_stream_out N s r"
    using e e' st
    by (simp add: channel_stream_out_def bundle_sample_def bundle_channel_def bundle_last_def d)
  show "transfer_of N (run N s stall) r = transfer_of N s r"
    using e e' st by (simp add: transfer_of_def c d)
qed

text \<open>
  Claim C6, as amended.  In a cycle without a transfer (the selected FIFO is empty or the
  consumer is not ready) the output is not valid, both selector registers keep their
  values and no FIFO loses an entry: every FIFO is what it was, followed by the entry it
  accepted from its source in this cycle, if any.  While the consumer withholds
  \<open>ready\<close>, for any number of cycles, no output is valid, the selector is unchanged and
  every FIFO is what it was followed by the entries accepted meanwhile; and if an entry
  was pending in the selected FIFO when the stall began, the first cycle with \<open>ready\<close>
  emits exactly the event that would have been emitted then, and it is the only transfer.
\<close>

theorem backpressure_lossless:
  assumes "0 < N" and "s = run N (power_on N) ins" and "k < N"
  shows "(\<not> emitting s i \<longrightarrow>
            \<not> out_valid (channel_stream_out N s i)
          \<and> current_bundle (tick N s i) = current_bundle s
          \<and> first_bundle_channel (tick N s i) = first_bundle_channel s
          \<and> fifos (tick N s i) ! k = fifos s ! k @ map w_data (accepted_of s i k))
       \<and> ((\<forall>j \<in> set stall. \<not> out_ready j) \<longrightarrow>
            (\<forall>v \<in> set (outputs N s stall). \<not> out_valid v)
          \<and> current_bundle (run N s stall) = current_bundle s
          \<and> first_bundle_channel (run N s stall) = first_bundle_channel s
          \<and> fifos (run N s stall) ! k = fifos s ! k @ map w_data (accepted N s stall k)
          \<and> (bundle_ready (selected s) \<and> out_ready r \<longrightarrow>
                out_valid (channel_stream_out N (run N s stall) r)
              \<and> channel_stream_out N (run N s stall) r = channel_stream_out N s r
              \<and> transfers N s (stall @ [r]) = transfer_of N s r))"
proof -
  have inv: "selector_inv N s" using assms(1,2) by (simp add: selector_inv_reached)
  have k: "k < length (fifos s)" using inv assms(3) by (simp add: selector_inv_def)
  have one: "\<not> emitting s i \<longrightarrow>
            \<not> out_valid (channel_stream_out N s i)
          \<and> current_bundle (tick N s i) = current_bundle s
          \<and> first_bundle_channel (tick N s i) = first_bundle_channel s
          \<and> fifos (tick N s i) ! k = fifos s ! k @ map w_data (accepted_of s i k)"
    using stall_tick [of s i N] stall_tick_fifo [of s i k N] k by blast
  have many: "(\<forall>v \<in> set (outputs N s stall). \<not> out_valid v)
          \<and> current_bundle (run N s stall) = current_bundle s
          \<and> first_bundle_channel (run N s stall) = first_bundle_channel s
          \<and> fifos (run N s stall) ! k = fifos s ! k @ map w_data (accepted N s stall k)"
    if st: "\<forall>j \<in> set stall. \<not> out_ready j"
    using stall_run_outputs [OF st, of N s] stall_run [OF st, of N s] stall_run_fifo [OF st k, of N]
    by blast
  have resume: "out_valid (channel_stream_out N (run N s stall) r)
              \<and> channel_stream_out N (run N s stall) r = channel_stream_out N s r
              \<and> transfers N s (stall @ [r]) = transfer_of N s r"
    if st: "\<forall>j \<in> set stall. \<not> out_ready j" and rdy: "bundle_ready (selected s)" and r: "out_ready r"
    using stall_resume [OF inv st rdy r] stall_run [OF st, of N s] rdy r
    by (simp add: out_valid_emitting transfers_append emitting_def)
  show ?thesis using one many resume by blast
qed

theorem backpressure_lossless_witness:
  "(0::nat) < 2
   \<and> \<not> emitting (run 2 (power_on 2) [cycle [(0, send 5 0 False)] True])
        (cycle [(0, send 6 1 True)] False)
   \<and> fifos (run 2 (power_on 2) [cycle [(0, send 5 0 False)] True]) ! 0 = [w_data (send 5 0 False)]
   \<and> fifos (tick 2 (run 2 (power_on 2) [cycle [(0, send 5 0 False)] True])
        (cycle [(0, send 6 1 True)] False)) ! 0 = [w_data (send 5 0 False), w_data (send 6 1 True)]
   \<and> \<not> out_ready (cycle [(0, send 6 1 True)] False) \<and> \<not> out_ready (cycle [] False)
   \<and> bundle_ready (selected (run 2 (power_on 2) [cycle [(0, send 5 0 False)] True]))
   \<and> out_ready (cycle [] True)
   \<and> out_payload (channel_stream_out 2
        (run 2 (run 2 (power_on 2) [cycle [(0, send 5 0 False)] True])
           [cycle [(0, send 6 1 True)] False, cycle [] False]) (cycle [] True)) = 5
   \<and> out_payload (channel_stream_out 2
        (run 2 (power_on 2) [cycle [(0, send 5 0 False)] True]) (cycle [] True)) = 5"
proof -
  let ?s = "run 2 (power_on 2) [cycle [(0, send 5 0 False)] True]"
  let ?i = "cycle [(0, send 6 1 True)] False"
  let ?stall = "[cycle [(0, send 6 1 True)] False, cycle [] False]"
  have ne: "\<not> emitting ?s ?i" by code_simp
  have f: "fifos ?s ! 0 = [w_data (send 5 0 False)]" by code_simp
  have a: "map w_data (accepted_of ?s ?i 0) = [w_data (send 6 1 True)]" by code_simp
  have st: "\<forall>j \<in> set ?stall. \<not> out_ready j" by (simp add: cycle_def)
  have rdy: "bundle_ready (selected ?s) \<and> out_ready (cycle [] True)" by code_simp
  have p: "out_payload (channel_stream_out 2 ?s (cycle [] True)) = 5" by code_simp
  show ?thesis
    using backpressure_lossless [of 2 ?s "[cycle [(0, send 5 0 False)] True]" 0 ?i ?stall "cycle [] True"]
      ne f a st rdy p
    by (simp add: cycle_def)
qed

text \<open>
  Claim C6 as stated fails: in a cycle without a transfer a FIFO still accepts what its
  source sends, so the buffer state changes.
\<close>

theorem stall_buffers_unchanged_counterexample:
  "\<not> emitting (power_on 2) (cycle [(0, send 5 0 False)] False)
   \<and> fifos (power_on 2) = [[], []]
   \<and> fifos (tick 2 (power_on 2) (cycle [(0, send 5 0 False)] False)) = [[w_data (send 5 0 False)], []]
   \<and> fifos (tick 2 (power_on 2) (cycle [(0, send 5 0 False)] False)) \<noteq> fifos (power_on 2)"
  by code_simp


section \<open>The order of the bundles\<close>

lemma round_robin_next:
  "round_robin N c xs \<Longrightarrow> Suc j < length xs \<Longrightarrow>
     fst (xs ! Suc j) =
       (if snd (xs ! j) then (if fst (xs ! j) = N - 1 then 0 else fst (xs ! j) + 1)
        else fst (xs ! j))"
proof (induction xs arbitrary: c j)
  case Nil
  then show ?case by simp
next
  case (Cons x xs)
  obtain b l where x: "x = (b, l)" by (cases x)
  show ?case
  proof (cases j)
    case 0
    with Cons.prems(2) obtain y ys where xs: "xs = y # ys" by (cases xs) auto
    obtain b' l' where y: "y = (b', l')" by (cases y)
    from Cons.prems(1) show ?thesis by (simp add: 0 x xs y)
  next
    case (Suc j')
    from Cons.prems have "round_robin N (if l then (if c = N - 1 then 0 else c + 1) else c) xs"
      and "Suc j' < length xs" by (simp_all add: x Suc)
    from Cons.IH [OF this] show ?thesis by (simp add: Suc)
  qed
qed

lemma round_robin_before_ahead:
  "round_robin N c xs \<Longrightarrow> j < length xs \<Longrightarrow> fst (xs ! j) = b2 \<Longrightarrow>
     c \<le> b1 \<Longrightarrow> b1 < b2 \<Longrightarrow> b2 < N \<Longrightarrow> \<exists>u<j. xs ! u = (b1, True)"
proof (induction xs arbitrary: c j)
  case Nil
  then show ?case by simp
next
  case (Cons x xs)
  obtain b l where x: "x = (b, l)" by (cases x)
  have b: "b = c" and rr: "round_robin N (if l then (if c = N - 1 then 0 else c + 1) else c) xs"
    using Cons.prems(1) by (simp_all add: x)
  show ?case
  proof (cases j)
    case 0
    with Cons.prems b x show ?thesis by simp
  next
    case (Suc j')
    show ?thesis
    proof (cases "l \<and> c = b1")
      case True
      then have "(x # xs) ! 0 = (b1, True)" by (simp add: x b)
      then show ?thesis unfolding Suc by blast
    next
      case False
      have c': "(if l then (if c = N - 1 then 0 else c + 1) else c) \<le> b1"
        using False Cons.prems(4,5,6) by auto
      have "j' < length xs" "fst (xs ! j') = b2" using Cons.prems(2,3) by (simp_all add: Suc)
      from Cons.IH [OF rr this c' Cons.prems(5,6)] obtain u where "u < j'" "xs ! u = (b1, True)"
        by blast
      then have "Suc u < j \<and> (x # xs) ! Suc u = (b1, True)" by (simp add: Suc)
      then show ?thesis by blast
    qed
  qed
qed

lemma round_robin_before_behind:
  "round_robin N c xs \<Longrightarrow> j < length xs \<Longrightarrow> fst (xs ! j) = b2 \<Longrightarrow>
     b2 < c \<Longrightarrow> c < N \<Longrightarrow> b1 < b2 \<Longrightarrow> \<exists>u<j. xs ! u = (b1, True)"
proof (induction xs arbitrary: c j)
  case Nil
  then show ?case by simp
next
  case (Cons x xs)
  obtain b l where x: "x = (b, l)" by (cases x)
  let ?c' = "if l then (if c = N - 1 then 0 else c + 1) else c"
  have b: "b = c" and rr: "round_robin N ?c' xs"
    using Cons.prems(1) by (simp_all add: x)
  show ?case
  proof (cases j)
    case 0
    with Cons.prems b x show ?thesis by simp
  next
    case (Suc j')
    have j': "j' < length xs" "fst (xs ! j') = b2" using Cons.prems(2,3) by (simp_all add: Suc)
    have "\<exists>u<j'. xs ! u = (b1, True)"
    proof (cases "l \<and> c = N - 1")
      case True
      then have "?c' \<le> b1" by simp
      moreover have "b2 < N" using Cons.prems(4,5) by simp
      ultimately show ?thesis
        using round_robin_before_ahead [OF rr j'] Cons.prems(6) by blast
    next
      case False
      then have "b2 < ?c'" "?c' < N" using Cons.prems(4,5) by auto
      from Cons.IH [OF rr j' this Cons.prems(6)] show ?thesis .
    qed
    then obtain u where "u < j'" "xs ! u = (b1, True)" by blast
    then have "Suc u < j \<and> (x # xs) ! Suc u = (b1, True)" by (simp add: Suc)
    then show ?thesis by blast
  qed
qed


text \<open>
  Claim C1, as amended.  In every state reached from power-on a transfer is sourced from
  the current bundle only; while the current bundle's FIFO is empty nothing is output and
  the selector stays, whatever the other FIFOs hold; and the transfers of any continuation
  follow the round robin order: the source changes only after a transfer with the last
  flag, to the next index, and to 0 after the last bundle.  Hence for bundles
  \<open>b1 < b2\<close>, unless the selector stands after \<open>b1\<close> and at or before \<open>b2\<close> (the
  frame of \<open>b1\<close> of this round is then complete), every transfer from \<open>b2\<close> is
  preceded by the transfer that ends the frame of \<open>b1\<close>.
\<close>

theorem strict_bundle_order:
  assumes "0 < N" and "s = run N (power_on N) ins0"
  shows "(emitting s i \<longrightarrow>
            transfer_of N s i =
              [\<lparr> from_bundle = current_bundle s, entry = r_data (fifos s ! current_bundle s),
                 event = channel_stream_out N s i \<rparr>])
       \<and> (\<not> bundle_ready (fifos s ! current_bundle s) \<longrightarrow>
            \<not> out_valid (channel_stream_out N s i) \<and> transfer_of N s i = []
          \<and> current_bundle (tick N s i) = current_bundle s)
       \<and> round_robin N (current_bundle s) (map turn (transfers N s ins))
       \<and> (b1 < b2 \<and> b2 < N \<and> \<not> (b1 < current_bundle s \<and> current_bundle s \<le> b2)
          \<and> j < length (transfers N s ins) \<and> from_bundle (transfers N s ins ! j) = b2 \<longrightarrow>
            (\<exists>u<j. from_bundle (transfers N s ins ! u) = b1
                  \<and> entry_last (entry (transfers N s ins ! u))))"
proof -
  have inv: "selector_inv N s" using assms by (simp add: selector_inv_reached)
  have sel: "selected s = fifos s ! current_bundle s" using inv by (rule selected_inv)
  have idx: "array_index (length (fifos s)) (current_bundle s) = current_bundle s"
    using inv by (simp add: selector_inv_def array_index_def)
  have rr: "round_robin N (current_bundle s) (map turn (transfers N s ins))"
    using inv by (rule round_robin_transfers)
  have one: "emitting s i \<longrightarrow>
            transfer_of N s i =
              [\<lparr> from_bundle = current_bundle s, entry = r_data (fifos s ! current_bundle s),
                 event = channel_stream_out N s i \<rparr>]"
    by (simp add: transfer_of_def idx sel)
  have ne: "\<not> emitting s i" if "\<not> bundle_ready (fifos s ! current_bundle s)"
    using that by (simp add: emitting_def sel)
  have block: "\<not> bundle_ready (fifos s ! current_bundle s) \<longrightarrow>
            \<not> out_valid (channel_stream_out N s i) \<and> transfer_of N s i = []
          \<and> current_bundle (tick N s i) = current_bundle s"
    using stall_tick [OF ne, of N] by blast
  have order: "\<exists>u<j. from_bundle (transfers N s ins ! u) = b1
                  \<and> entry_last (entry (transfers N s ins ! u))"
    if h: "b1 < b2" "b2 < N" "\<not> (b1 < current_bundle s \<and> current_bundle s \<le> b2)"
      "j < length (transfers N s ins)" "from_bundle (transfers N s ins ! j) = b2"
  proof -
    let ?xs = "map turn (transfers N s ins)"
    have j: "j < length ?xs" "fst (?xs ! j) = b2" using h(4,5) by (simp_all add: turn_def)
    have cb: "current_bundle s < N" using inv by (simp add: selector_inv_def)
    have "\<exists>u<j. ?xs ! u = (b1, True)"
    proof (cases "current_bundle s \<le> b1")
      case True
      from round_robin_before_ahead [OF rr j True h(1,2)] show ?thesis .
    next
      case False
      then have "b2 < current_bundle s" using h(3) by simp
      from round_robin_before_behind [OF rr j this cb h(1)] show ?thesis .
    qed
    then obtain u where u: "u < j" "?xs ! u = (b1, True)" by blast
    then have "u < length (transfers N s ins)" using h(4) by simp
    with u show ?thesis by (auto simp: turn_def)
  qed
  show ?thesis using one block rr order by blast
qed

theorem strict_bundle_order_witness:
  "(0::nat) < 2
   \<and> emitting (run 2 (power_on 2) [cycle [(0, send 5 0 True), (1, send 6 0 True)] True]) (cycle [] True)
   \<and> map from_bundle (transfer_of 2
        (run 2 (power_on 2) [cycle [(0, send 5 0 True), (1, send 6 0 True)] True]) (cycle [] True)) = [0]
   \<and> \<not> bundle_ready (fifos (power_on 2) ! current_bundle (power_on 2))
   \<and> \<not> out_valid (channel_stream_out 2 (power_on 2) (cycle [(1, send 6 0 True)] True))
   \<and> from_bundle (transfers 2
        (run 2 (power_on 2) [cycle [(0, send 5 0 True), (1, send 6 0 True)] True])
        [cycle [] True, cycle [] True] ! 1) = 1
   \<and> from_bundle (transfers 2
        (run 2 (power_on 2) [cycle [(0, send 5 0 True), (1, send 6 0 True)] True])
        [cycle [] True, cycle [] True] ! 0) = 0
   \<and> entry_last (entry (transfers 2
        (run 2 (power_on 2) [cycle [(0, send 5 0 True), (1, send 6 0 True)] True])
        [cycle [] True, cycle [] True] ! 0))"
proof -
  let ?before = "[cycle [(0, send 5 0 True), (1, send 6 0 True)] True]"
  let ?s = "run 2 (power_on 2) ?before"
  let ?ins = "[cycle [] True, cycle [] True]"
  have z: "(0::nat) < 2" by simp
  have e: "emitting ?s (cycle [] True)" by code_simp
  have cb: "current_bundle ?s = 0" by code_simp
  have ne: "\<not> bundle_ready (fifos (power_on 2) ! current_bundle (power_on 2))" by code_simp
  have h: "(0::nat) < 1 \<and> (1::nat) < 2 \<and> \<not> (0 < current_bundle ?s \<and> current_bundle ?s \<le> 1)
      \<and> 1 < length (transfers 2 ?s ?ins) \<and> from_bundle (transfers 2 ?s ?ins ! 1) = 1"
    by code_simp
  have h1: "from_bundle (transfers 2 ?s ?ins ! 1) = 1" using h by blast
  have a: "transfer_of 2 ?s (cycle [] True) =
      [\<lparr> from_bundle = current_bundle ?s, entry = r_data (fifos ?s ! current_bundle ?s),
         event = channel_stream_out 2 ?s (cycle [] True) \<rparr>]"
    using strict_bundle_order [where N = 2 and s = ?s and ?ins0.0 = ?before and i = "cycle [] True"
        and ins = "[]" and ?b1.0 = 0 and ?b2.0 = 0 and j = 0, OF z refl] e by blast
  have m: "map from_bundle (transfer_of 2 ?s (cycle [] True)) = [0]"
    by (simp only: a list.map transfer.simps cb)
  have b: "\<not> out_valid (channel_stream_out 2 (power_on 2) (cycle [(1, send 6 0 True)] True))"
    using strict_bundle_order [where N = 2 and s = "power_on 2" and ?ins0.0 = "[]"
        and i = "cycle [(1, send 6 0 True)] True" and ins = "[]" and ?b1.0 = 0 and ?b2.0 = 0 and j = 0,
        OF z] ne
    by (simp only: run.simps) blast
  have "\<exists>u<1. from_bundle (transfers 2 ?s ?ins ! u) = 0 \<and> entry_last (entry (transfers 2 ?s ?ins ! u))"
    using strict_bundle_order [where N = 2 and s = ?s and ?ins0.0 = ?before and i = "cycle [] True"
        and ins = ?ins and ?b1.0 = 0 and ?b2.0 = 1 and j = 1, OF z refl] h by blast
  then obtain u where "u < 1"
    and "from_bundle (transfers 2 ?s ?ins ! u) = 0 \<and> entry_last (entry (transfers 2 ?s ?ins ! u))"
    by blast
  then have c: "from_bundle (transfers 2 ?s ?ins ! 0) = 0 \<and> entry_last (entry (transfers 2 ?s ?ins ! 0))"
    by simp
  show ?thesis using z e m ne b h1 c by blast
qed

text \<open>
  Claim C1 as stated fails in a reachable state in which the selector has passed bundle 0:
  bundles 0 and 1 both have data ready, and the next transfer is sourced from bundle 1
  while the sample of bundle 0 stays in its FIFO.
\<close>

theorem strict_bundle_order_counterexample:
  "current_bundle second_round_state = 1
   \<and> bundle_ready (fifos second_round_state ! 0) \<and> bundle_ready (fifos second_round_state ! 1)
   \<and> map from_bundle (transfers 2 second_round_state [cycle [] True]) = [1]
   \<and> map (\<lambda>t. out_payload (event t)) (transfers 2 second_round_state [cycle [] True]) = [768]
   \<and> fifos second_round_state ! 0 = [w_data (send 512 0 False)]
   \<and> fifos (run 2 second_round_state [cycle [] True]) ! 0 = [w_data (send 512 0 False)]"
  by code_simp


section \<open>The first and last markers\<close>

lemma frames_done_Cons:
  "frames_done (t # ts) = (if entry_last (entry t) then 1 else 0) + frames_done ts"
  by (simp add: frames_done_def)

lemma frames_done_last: "ts \<noteq> [] \<Longrightarrow> entry_last (entry (last ts)) \<Longrightarrow> 0 < frames_done ts"
  by (induction ts) (auto simp: frames_done_Cons split: if_splits)

lemma round_markers:
  assumes "round_robin N c (map turn ts)"
    and "\<forall>t \<in> set ts. event t = event_of N (from_bundle t) (entry t)"
    and "c < N" and "frames_done ts + c = N" and "entry_last (entry (last ts))"
  shows "length (filter (\<lambda>t. out_last (event t)) ts) = 1
       \<and> length (filter (\<lambda>t. out_first (event t)) ts) =
           (if c = 0 then length (filter (\<lambda>w. entry_channel w = 0) (first_frame (map entry ts)))
            else 0)"
  using assms
proof (induction ts arbitrary: c)
  case Nil
  then show ?case by (simp add: frames_done_def)
next
  case (Cons t ts)
  have tt: "turn t = (from_bundle t, entry_last (entry t))" by (simp add: turn_def)
  have src: "from_bundle t = c" using Cons.prems(1) by (simp add: tt)
  have ev: "event t = event_of N c (entry t)" using Cons.prems(2) src by simp
  have evs: "\<forall>t \<in> set ts. event t = event_of N (from_bundle t) (entry t)"
    using Cons.prems(2) by simp
  show ?case
  proof (cases "entry_last (entry t)")
    case False
    have rr: "round_robin N c (map turn ts)" using Cons.prems(1) False by (simp add: tt)
    have fd: "frames_done ts + c = N" using Cons.prems(4) False by (simp add: frames_done_Cons)
    have ne: "ts \<noteq> []" using Cons.prems(5) False by auto
    then have la: "entry_last (entry (last ts))" using Cons.prems(5) by simp
    from Cons.IH [OF rr evs Cons.prems(3) fd la] False show ?thesis
      by (simp add: ev event_of_def)
  next
    case True
    show ?thesis
    proof (cases "c = N - 1")
      case last: True
      have "frames_done ts = 0" using Cons.prems(3,4) True last by (simp add: frames_done_Cons)
      then have "ts = []" using frames_done_last [of ts] Cons.prems(5) by (cases ts) auto
      with True last show ?thesis by (simp add: ev event_of_def)
    next
      case False
      then have c': "c + 1 < N" using Cons.prems(3) by simp
      have rr: "round_robin N (c + 1) (map turn ts)"
        using Cons.prems(1) True False by (simp add: tt)
      have fd: "frames_done ts + (c + 1) = N" using Cons.prems(4) True by (simp add: frames_done_Cons)
      have ne: "ts \<noteq> []" using fd c' by (auto simp: frames_done_def)
      then have la: "entry_last (entry (last ts))" using Cons.prems(5) by simp
      from Cons.IH [OF rr evs c' fd la] True False show ?thesis
        by (simp add: ev event_of_def)
    qed
  qed
qed

lemma marker_needs_valid:
  "\<not> out_valid (channel_stream_out N s i) \<Longrightarrow>
     \<not> out_first (channel_stream_out N s i) \<and> \<not> out_last (channel_stream_out N s i)
     \<and> out_channel_nr (channel_stream_out N s i) = 0"
  by (simp add: channel_stream_out_def split: if_splits)

lemma filter_valid_outputs:
  assumes "\<And>v. P v \<Longrightarrow> out_first v \<or> out_last v"
  shows "filter P (outputs N s ins) = filter P (map event (transfers N s ins))"
proof -
  have "v \<in> set (outputs N s ins) \<Longrightarrow> P v \<Longrightarrow> out_valid v" for v
  proof -
    assume "v \<in> set (outputs N s ins)" and p: "P v"
    then obtain t where "t < length ins" and v: "v = outputs N s ins ! t"
      by (auto simp: in_set_conv_nth length_outputs)
    then have "v = channel_stream_out N (run N s (take t ins)) (ins ! t)"
      by (simp add: nth_outputs)
    with assms [OF p] show "out_valid v" using marker_needs_valid by blast
  qed
  then have "filter P (outputs N s ins) = filter (\<lambda>v. out_valid v \<and> P v) (outputs N s ins)"
    by (intro filter_cong) auto
  then show ?thesis by (simp add: events_of_transfers)
qed

text \<open>
  Claim C5, as amended.  In every state reached from power-on the output \<open>first\<close> is
  asserted exactly when an event is emitted, the current bundle is 0 and the channel number
  of the entry is 0, and the output \<open>last\<close> exactly when an event is emitted, the
  current bundle is \<open>N - 1\<close> and the entry carries the last flag.  In a full round (the
  selector starts at bundle 0 and the run transfers exactly \<open>N\<close> frames, ending with the
  last entry of the \<open>N\<close>-th) exactly one output event has \<open>last\<close>, and as many output
  events have \<open>first\<close> as the frame of bundle 0 has entries with channel number 0:
  exactly one when the source numbers the channels of a frame from 0 upwards.
\<close>

theorem frame_markers:
  assumes "0 < N" and "s = run N (power_on N) ins0"
  shows "out_first (channel_stream_out N s i) =
           (emitting s i \<and> current_bundle s = 0 \<and> bundle_channel (fifos s ! current_bundle s) = 0)
       \<and> out_last (channel_stream_out N s i) =
           (emitting s i \<and> current_bundle s = N - 1 \<and> bundle_last (fifos s ! current_bundle s))
       \<and> (current_bundle s = 0 \<and> frames_done (transfers N s ins) = N
          \<and> entry_last (entry (last (transfers N s ins))) \<longrightarrow>
            length (filter out_last (outputs N s ins)) = 1
          \<and> length (filter out_first (outputs N s ins)) =
              length (filter (\<lambda>w. entry_channel w = 0) (first_frame (map entry (transfers N s ins)))))"
proof -
  have inv: "selector_inv N s" using assms by (simp add: selector_inv_reached)
  have sel: "selected s = fifos s ! current_bundle s" using inv by (rule selected_inv)
  have point: "out_first (channel_stream_out N s i) =
           (emitting s i \<and> current_bundle s = 0 \<and> bundle_channel (fifos s ! current_bundle s) = 0)
       \<and> out_last (channel_stream_out N s i) =
           (emitting s i \<and> current_bundle s = N - 1 \<and> bundle_last (fifos s ! current_bundle s))"
    by (auto simp: channel_stream_out_def sel)
  have round: "length (filter out_last (outputs N s ins)) = 1
          \<and> length (filter out_first (outputs N s ins)) =
              length (filter (\<lambda>w. entry_channel w = 0) (first_frame (map entry (transfers N s ins))))"
    if h: "current_bundle s = 0" "frames_done (transfers N s ins) = N"
      "entry_last (entry (last (transfers N s ins)))"
  proof -
    let ?ts = "transfers N s ins"
    have rr: "round_robin N 0 (map turn ?ts)" using round_robin_transfers [OF inv, of ins] h(1) by simp
    have evs: "\<forall>t \<in> set ?ts. event t = event_of N (from_bundle t) (entry t)"
      using transfers_event_of [OF inv] by blast
    have fd: "frames_done ?ts + 0 = N" using h(2) by simp
    note m = round_markers [OF rr evs assms(1) fd h(3)]
    have l: "filter out_last (outputs N s ins) = filter out_last (map event ?ts)"
      by (rule filter_valid_outputs) simp
    have f: "filter out_first (outputs N s ins) = filter out_first (map event ?ts)"
      by (rule filter_valid_outputs) simp
    show ?thesis using m by (simp add: l f filter_map comp_def)
  qed
  show ?thesis using point round by blast
qed

theorem frame_markers_witness:
  "(0::nat) < 2
   \<and> current_bundle (power_on 2) = 0
   \<and> frames_done (transfers 2 (power_on 2)
        (send_bundle_frame 0 0 @ send_bundle_frame 1 1 @ [cycle [] True])) = 2
   \<and> entry_last (entry (last (transfers 2 (power_on 2)
        (send_bundle_frame 0 0 @ send_bundle_frame 1 1 @ [cycle [] True]))))
   \<and> length (filter out_valid (outputs 2 (power_on 2)
        (send_bundle_frame 0 0 @ send_bundle_frame 1 1 @ [cycle [] True]))) = 16
   \<and> length (filter out_last (outputs 2 (power_on 2)
        (send_bundle_frame 0 0 @ send_bundle_frame 1 1 @ [cycle [] True]))) = 1
   \<and> length (filter out_first (outputs 2 (power_on 2)
        (send_bundle_frame 0 0 @ send_bundle_frame 1 1 @ [cycle [] True]))) = 1"
proof -
  let ?ins = "send_bundle_frame 0 0 @ send_bundle_frame 1 1 @ [cycle [] True]"
  have z: "(0::nat) < 2" by simp
  have h: "current_bundle (power_on 2) = 0 \<and> frames_done (transfers 2 (power_on 2) ?ins) = 2
      \<and> entry_last (entry (last (transfers 2 (power_on 2) ?ins)))"
    by code_simp
  have n: "length (filter out_valid (outputs 2 (power_on 2) ?ins)) = 16" by code_simp
  have c: "length (filter (\<lambda>w. entry_channel w = 0)
      (first_frame (map entry (transfers 2 (power_on 2) ?ins)))) = 1"
    by code_simp
  have "run 2 (power_on 2) [] = power_on 2" by simp
  note m = frame_markers [where N = 2 and s = "power_on 2" and ?ins0.0 = "[]" and i = "cycle [] True"
      and ins = ?ins, OF z this [symmetric]]
  have "length (filter out_last (outputs 2 (power_on 2) ?ins)) = 1
      \<and> length (filter out_first (outputs 2 (power_on 2) ?ins)) = 1"
    using m h unfolding c by blast
  then show ?thesis using z h n by blast
qed

text \<open>
  Claim C5 as stated fails when the source of bundle 0 sends channel number 0 twice in one
  frame: the round of two frames below has two output events with \<open>first\<close>.
\<close>

theorem frame_markers_counterexample:
  "frames_done (transfers 2 (power_on 2)
     [cycle [(0, send 5 0 False)] True, cycle [(0, send 6 0 True), (1, send 7 7 True)] True,
      cycle [] True, cycle [] True]) = 2
   \<and> map out_first (filter out_valid (outputs 2 (power_on 2)
     [cycle [(0, send 5 0 False)] True, cycle [(0, send 6 0 True), (1, send 7 7 True)] True,
      cycle [] True, cycle [] True])) = [True, True, False]
   \<and> map out_last (filter out_valid (outputs 2 (power_on 2)
     [cycle [(0, send 5 0 False)] True, cycle [(0, send 6 0 True), (1, send 7 7 True)] True,
      cycle [] True, cycle [] True])) = [False, False, True]"
  by code_simp

section \<open>The channel numbers of consecutive transfers\<close>

lemma event_of_channel_zero:
  "(out_channel_nr (event_of N b w) = 0) = out_first (event_of N b w)"
  by (simp add: event_of_def unat_eq_0 NO_CHANNELS_ADAT_def)

text \<open>
  Claim C8, as amended.  On the transferred events of any run from a reached state, the
  channel number is 0 exactly on the events with \<open>first\<close>.  From one transferred event
  to the next inside an output frame (the earlier one does not carry the output
  \<open>last\<close>), the channel number increases by exactly 1 if and only if the channel
  numbers of the two entries are consecutive: the next entry's is one more inside a bundle
  frame, and after an entry with the last flag the earlier one's is 7 and the next one's 0.
\<close>

theorem channel_nr_steps:
  assumes "0 < N" and "s = run N (power_on N) ins0"
  shows "(\<forall>v \<in> set (outputs N s ins). out_valid v \<longrightarrow> (out_channel_nr v = 0) = out_first v)
       \<and> (Suc j < length (transfers N s ins) \<and> \<not> out_last (event (transfers N s ins ! j)) \<longrightarrow>
            (out_channel_nr (event (transfers N s ins ! Suc j)) =
               out_channel_nr (event (transfers N s ins ! j)) + 1)
            = (if entry_last (entry (transfers N s ins ! j))
               then unat (entry_channel (entry (transfers N s ins ! j))) = NO_CHANNELS_ADAT - 1
                  \<and> unat (entry_channel (entry (transfers N s ins ! Suc j))) = 0
               else unat (entry_channel (entry (transfers N s ins ! Suc j))) =
                      unat (entry_channel (entry (transfers N s ins ! j))) + 1))"
proof -
  let ?ts = "transfers N s ins"
  have inv: "selector_inv N s" using assms by (simp add: selector_inv_reached)
  have evs: "t \<in> set ?ts \<Longrightarrow> event t = event_of N (from_bundle t) (entry t)" for t
    using transfers_event_of [OF inv] by blast
  have zero: "\<forall>v \<in> set (outputs N s ins). out_valid v \<longrightarrow> (out_channel_nr v = 0) = out_first v"
  proof (intro ballI impI)
    fix v assume "v \<in> set (outputs N s ins)" "out_valid v"
    then have "v \<in> set (map event ?ts)" by (simp add: events_of_transfers)
    then obtain t where "t \<in> set ?ts" "v = event t" by auto
    then show "(out_channel_nr v = 0) = out_first v"
      by (simp add: evs event_of_channel_zero)
  qed
  have step: "(out_channel_nr (event (?ts ! Suc j)) = out_channel_nr (event (?ts ! j)) + 1)
            = (if entry_last (entry (?ts ! j))
               then unat (entry_channel (entry (?ts ! j))) = NO_CHANNELS_ADAT - 1
                  \<and> unat (entry_channel (entry (?ts ! Suc j))) = 0
               else unat (entry_channel (entry (?ts ! Suc j))) =
                      unat (entry_channel (entry (?ts ! j))) + 1)"
    if h: "Suc j < length ?ts" "\<not> out_last (event (?ts ! j))"
  proof -
    let ?t1 = "?ts ! j" and ?t2 = "?ts ! Suc j"
    have e1: "event ?t1 = event_of N (from_bundle ?t1) (entry ?t1)" using h(1) by (simp add: evs)
    have e2: "event ?t2 = event_of N (from_bundle ?t2) (entry ?t2)" using h(1) by (simp add: evs)
    have rr: "round_robin N (current_bundle s) (map turn ?ts)" using inv by (rule round_robin_transfers)
    have nl: "\<not> (entry_last (entry ?t1) \<and> from_bundle ?t1 = N - 1)"
      using h(2) by (simp add: e1 event_of_def)
    have "from_bundle ?t2 =
        (if entry_last (entry ?t1) then (if from_bundle ?t1 = N - 1 then 0 else from_bundle ?t1 + 1)
         else from_bundle ?t1)"
      using round_robin_next [OF rr, of j] h(1) by (simp add: turn_def)
    then have b2: "from_bundle ?t2 = (if entry_last (entry ?t1) then from_bundle ?t1 + 1 else from_bundle ?t1)"
      using nl by auto
    have c1: "unat (entry_channel (entry ?t1)) < 8"
      using unat_bundle_channel [of "entry_channel (entry ?t1)"] by (simp add: NO_CHANNELS_ADAT_def)
    have c2: "unat (entry_channel (entry ?t2)) < 8"
      using unat_bundle_channel [of "entry_channel (entry ?t2)"] by (simp add: NO_CHANNELS_ADAT_def)
    show ?thesis
      unfolding e1 e2 b2 using c1 c2 by (auto simp: event_of_def NO_CHANNELS_ADAT_def)
  qed
  show ?thesis using zero step by blast
qed

theorem channel_nr_steps_witness:
  "(0::nat) < 2
   \<and> map out_channel_nr (filter out_valid (outputs 2 (power_on 2)
        (send_bundle_frame 0 0 @ send_bundle_frame 1 1 @ [cycle [] True]))) = [0..<16]
   \<and> out_valid (outputs 2 (power_on 2)
        (send_bundle_frame 0 0 @ send_bundle_frame 1 1 @ [cycle [] True]) ! 1)
   \<and> out_channel_nr (outputs 2 (power_on 2)
        (send_bundle_frame 0 0 @ send_bundle_frame 1 1 @ [cycle [] True]) ! 1) = 0
   \<and> out_first (outputs 2 (power_on 2)
        (send_bundle_frame 0 0 @ send_bundle_frame 1 1 @ [cycle [] True]) ! 1)
   \<and> \<not> out_last (event (transfers 2 (power_on 2)
        (send_bundle_frame 0 0 @ send_bundle_frame 1 1 @ [cycle [] True]) ! 7))
   \<and> entry_last (entry (transfers 2 (power_on 2)
        (send_bundle_frame 0 0 @ send_bundle_frame 1 1 @ [cycle [] True]) ! 7))
   \<and> out_channel_nr (event (transfers 2 (power_on 2)
        (send_bundle_frame 0 0 @ send_bundle_frame 1 1 @ [cycle [] True]) ! Suc 7))
      = out_channel_nr (event (transfers 2 (power_on 2)
        (send_bundle_frame 0 0 @ send_bundle_frame 1 1 @ [cycle [] True]) ! 7)) + 1"
proof -
  let ?ins = "send_bundle_frame 0 0 @ send_bundle_frame 1 1 @ [cycle [] True]"
  let ?ts = "transfers 2 (power_on 2) ?ins"
  let ?os = "outputs 2 (power_on 2) ?ins"
  have z: "(0::nat) < 2" by simp
  have all: "map out_channel_nr (filter out_valid ?os) = [0..<16]" by code_simp
  have v: "?os ! 1 \<in> set ?os \<and> out_valid (?os ! 1) \<and> out_channel_nr (?os ! 1) = 0" by code_simp
  have h: "Suc 7 < length ?ts \<and> \<not> out_last (event (?ts ! 7))" by code_simp
  have l: "entry_last (entry (?ts ! 7))
      \<and> unat (entry_channel (entry (?ts ! 7))) = NO_CHANNELS_ADAT - 1
      \<and> unat (entry_channel (entry (?ts ! Suc 7))) = 0"
    by code_simp
  have "run 2 (power_on 2) [] = power_on 2" by simp
  note m = channel_nr_steps [where N = 2 and s = "power_on 2" and ?ins0.0 = "[]" and ins = ?ins
      and j = 7, OF z this [symmetric]]
  have f: "out_first (?os ! 1)" using m v by blast
  have st: "out_channel_nr (event (?ts ! Suc 7)) = out_channel_nr (event (?ts ! 7)) + 1"
    using m h l by simp
  show ?thesis using z all v f h l st by blast
qed

text \<open>
  Claim C8 as stated fails when a source does not send consecutive channel numbers: the
  output channel number follows the source's, here from 0 to 5 inside a frame.
\<close>

theorem channel_nr_steps_counterexample:
  "map out_channel_nr (filter out_valid (outputs 2 (power_on 2)
     [cycle [(0, send 5 0 False)] True, cycle [(0, send 6 5 False)] True, cycle [] True])) = [0, 5]
   \<and> map out_first (filter out_valid (outputs 2 (power_on 2)
     [cycle [(0, send 5 0 False)] True, cycle [(0, send 6 5 False)] True, cycle [] True])) = [True, False]
   \<and> map out_last (filter out_valid (outputs 2 (power_on 2)
     [cycle [(0, send 5 0 False)] True, cycle [(0, send 6 5 False)] True, cycle [] True])) = [False, False]"
  by code_simp

section \<open>The test bench\<close>

text \<open>
  The stimuli of \<open>test_smoke\<close> give the 32 output events of the four frames in bundle
  order, with the channel numbers 0 to 31, \<open>first\<close> on the first event only and
  \<open>last\<close> on the last event only.
\<close>

lemma test_smoke_outputs:
  "map (\<lambda>v. (out_payload v, out_channel_nr v)) (filter out_valid (outputs 4 (power_on 4) test_smoke))
     = map (\<lambda>n. (push_bit 8 (of_nat (n div 8)) + of_nat (n mod 8), n)) [0..<32]
   \<and> map out_first (filter out_valid (outputs 4 (power_on 4) test_smoke)) = True # replicate 31 False
   \<and> map out_last (filter out_valid (outputs 4 (power_on 4) test_smoke)) = replicate 31 False @ [True]"
  by code_simp

end
